theory Spec2Isabelle
  imports Main "HOL-Library.Word"
begin

section \<open>JavaScript strings\<close>

text \<open>
  A JavaScript string is a sequence of UTF-16 code units: \<open>length\<close>, \<open>slice\<close>,
  \<open>trim\<close> and the regular expressions of \<^verbatim>\<open>index.ts\<close> (none has the \<open>u\<close> flag) all
  work on code units. A code unit is a 16-bit word; \<open>js\<close> turns an ASCII literal of the
  source into its code units.
\<close>

type_synonym jschar = "16 word"
type_synonym jsstring = "jschar list"

definition jc :: "char \<Rightarrow> jschar" where
  "jc c = of_nat (of_char c)"

definition js :: "string \<Rightarrow> jsstring" where
  "js s = map jc s"

text \<open>
  ECMAScript \<open>WhiteSpace\<close> and \<open>LineTerminator\<close> code points; together they are what
  \<open>String.prototype.trim\<close> strips and what \<open>\s\<close> matches.
\<close>

definition isLineTerminator :: "jschar \<Rightarrow> bool" where
  "isLineTerminator c = (unat c \<in> {0x0A, 0x0D, 0x2028, 0x2029})"

definition isWhiteSpace :: "jschar \<Rightarrow> bool" where
  "isWhiteSpace c =
     (let n = unat c in
      n \<in> {0x09, 0x0B, 0x0C, 0x20, 0xA0, 0x1680, 0x202F, 0x205F, 0x3000, 0xFEFF}
      \<or> (0x2000 \<le> n \<and> n \<le> 0x200A))"

definition isSpace :: "jschar \<Rightarrow> bool" where
  "isSpace c = (isWhiteSpace c \<or> isLineTerminator c)"

definition trim :: "jsstring \<Rightarrow> jsstring" where
  "trim s = rev (dropWhile isSpace (rev (dropWhile isSpace s)))"

definition startsWith :: "jsstring \<Rightarrow> jsstring \<Rightarrow> bool" where
  "startsWith s p = (take (length p) s = p)"

definition endsWith :: "jsstring \<Rightarrow> jsstring \<Rightarrow> bool" where
  "endsWith s p = (length p \<le> length s \<and> drop (length s - length p) s = p)"

text \<open>\<open>String.prototype.split\<close> with a one-code-unit separator.\<close>

fun split :: "jschar \<Rightarrow> jsstring \<Rightarrow> jsstring list" where
  "split sep [] = [[]]"
| "split sep (c # cs) =
     (if c = sep then [] # split sep cs
      else (case split sep cs of l # ls \<Rightarrow> (c # l) # ls | [] \<Rightarrow> [[c]]))"

section \<open>Regular expressions\<close>

text \<open>
  The fragment of ECMAScript regular expressions that \<^verbatim>\<open>index.ts\<close> uses, and the
  backtracking matcher of the language specification for it. A match state is the text
  consumed so far, the text still to read and the capture groups. \<open>ms r st\<close> lists
  every way in which \<open>r\<close> can match at \<open>st\<close>, in the order in which a backtracking
  matcher tries them; the first entry that lets the rest of the pattern succeed is the
  match. An iteration of a quantifier that consumes nothing is rejected, as in
  ECMAScript.
\<close>

datatype regex =
    Chr "jschar \<Rightarrow> bool"
  | Eps
  | Seq regex regex
  | Alt regex regex
  | Star regex
  | LazyStar regex
  | Group nat regex
  | Bol
  | Eol

type_synonym mstate = "jsstring \<times> jsstring \<times> (nat \<rightharpoonup> jsstring)"

fun ms :: "regex \<Rightarrow> mstate \<Rightarrow> mstate list" where
  "ms (Chr P) (pre, rest, caps) =
     (case rest of [] \<Rightarrow> [] | x # xs \<Rightarrow> if P x then [(pre @ [x], xs, caps)] else [])"
| "ms Eps st = [st]"
| "ms (Seq r1 r2) st = concat (map (ms r2) (ms r1 st))"
| "ms (Alt r1 r2) st = ms r1 st @ ms r2 st"
| "ms (Star r) (pre, rest, caps) =
     concat (map (\<lambda>(pre', rest', caps').
                    if length rest' < length rest then ms (Star r) (pre', rest', caps') else [])
                 (ms r (pre, rest, caps)))
     @ [(pre, rest, caps)]"
| "ms (LazyStar r) (pre, rest, caps) =
     (pre, rest, caps) #
     concat (map (\<lambda>(pre', rest', caps').
                    if length rest' < length rest then ms (LazyStar r) (pre', rest', caps') else [])
                 (ms r (pre, rest, caps)))"
| "ms (Group n r) (pre, rest, caps) =
     map (\<lambda>(pre', rest', caps'). (pre', rest', caps'(n \<mapsto> drop (length pre) pre')))
         (ms r (pre, rest, caps))"
| "ms Bol (pre, rest, caps) = (if pre = [] then [(pre, rest, caps)] else [])"
| "ms Eol (pre, rest, caps) = (if rest = [] then [(pre, rest, caps)] else [])"

definition Plus :: "regex \<Rightarrow> regex" where
  "Plus r = Seq r (Star r)"

definition LazyPlus :: "regex \<Rightarrow> regex" where
  "LazyPlus r = Seq r (LazyStar r)"

definition Opt :: "regex \<Rightarrow> regex" where
  "Opt r = Alt r Eps"

fun Lit :: "jsstring \<Rightarrow> regex" where
  "Lit [] = Eps"
| "Lit (c # cs) = Seq (Chr (\<lambda>x. x = c)) (Lit cs)"

text \<open>
  \<open>RegExp.prototype.exec\<close> without the \<open>g\<close> and \<open>y\<close> flags: the match at the
  smallest start index that has one. The result is the text before the match and the
  final match state (whose first component ends where the match ends).
\<close>

fun exec_from :: "regex \<Rightarrow> jsstring \<Rightarrow> jsstring \<Rightarrow> (jsstring \<times> mstate) option" where
  "exec_from r pre rest =
     (case ms r (pre, rest, Map.empty) of
        m # _ \<Rightarrow> Some (pre, m)
      | [] \<Rightarrow> (case rest of [] \<Rightarrow> None | c # cs \<Rightarrow> exec_from r (pre @ [c]) cs))"

definition exec :: "regex \<Rightarrow> jsstring \<Rightarrow> (jsstring \<times> mstate) option" where
  "exec r s = exec_from r [] s"

definition test :: "regex \<Rightarrow> jsstring \<Rightarrow> bool" where
  "test r s = (exec r s \<noteq> None)"

text \<open>The capture group \<open>n\<close> of a match; a group that did not take part is \<open>undefined\<close>.\<close>

definition group :: "jsstring \<times> mstate \<Rightarrow> nat \<Rightarrow> jsstring option" where
  "group m n = (case m of (_, _, _, caps) \<Rightarrow> caps n)"

text \<open>
  \<open>String.prototype.replace\<close> with a regular expression without the \<open>g\<close> flag and a
  replacement text without \<open>$\<close>: the first match is replaced.
\<close>

definition replace :: "jsstring \<Rightarrow> regex \<Rightarrow> jsstring \<Rightarrow> jsstring" where
  "replace s r repl =
     (case exec r s of
        None \<Rightarrow> s
      | Some (before, _, after, _) \<Rightarrow> before @ repl @ after)"

text \<open>The text of a number in a template literal, for the integers that exit codes are.\<close>

fun digits :: "nat \<Rightarrow> jsstring" where
  "digits n = (if n < 10 then [of_nat (48 + n)] else digits (n div 10) @ [of_nat (48 + n mod 10)])"

definition showInt :: "int \<Rightarrow> jsstring" where
  "showInt i = (if i < 0 then js ''-'' @ digits (nat (- i)) else digits (nat i))"

section \<open>Model definitions\<close>

record CursorModelDef =
  id' :: jsstring
  name :: jsstring
  reasoning :: bool
  contextWindow :: nat
  maxTokens :: nat

definition STATIC_MODELS :: "CursorModelDef list" where
  "STATIC_MODELS = [
     \<lparr>id' = js ''auto'', name = js ''Auto'', reasoning = False,
      contextWindow = 200000, maxTokens = 32768\<rparr>,
     \<lparr>id' = js ''composer-1.5'', name = js ''Composer 1.5'', reasoning = False,
      contextWindow = 200000, maxTokens = 32768\<rparr>,
     \<lparr>id' = js ''composer-1'', name = js ''Composer 1'', reasoning = False,
      contextWindow = 200000, maxTokens = 32768\<rparr>,
     \<lparr>id' = js ''opus-4.6-thinking'', name = js ''Claude 4.6 Opus (Thinking)'', reasoning = True,
      contextWindow = 200000, maxTokens = 32000\<rparr>,
     \<lparr>id' = js ''opus-4.6'', name = js ''Claude 4.6 Opus'', reasoning = False,
      contextWindow = 200000, maxTokens = 32000\<rparr>,
     \<lparr>id' = js ''opus-4.5-thinking'', name = js ''Claude 4.5 Opus (Thinking)'', reasoning = True,
      contextWindow = 200000, maxTokens = 32000\<rparr>,
     \<lparr>id' = js ''opus-4.5'', name = js ''Claude 4.5 Opus'', reasoning = False,
      contextWindow = 200000, maxTokens = 32000\<rparr>,
     \<lparr>id' = js ''sonnet-4.6-thinking'', name = js ''Claude 4.6 Sonnet (Thinking)'', reasoning = True,
      contextWindow = 200000, maxTokens = 32000\<rparr>,
     \<lparr>id' = js ''sonnet-4.6'', name = js ''Claude 4.6 Sonnet'', reasoning = False,
      contextWindow = 200000, maxTokens = 32000\<rparr>,
     \<lparr>id' = js ''sonnet-4.5-thinking'', name = js ''Claude 4.5 Sonnet (Thinking)'', reasoning = True,
      contextWindow = 200000, maxTokens = 32000\<rparr>,
     \<lparr>id' = js ''sonnet-4.5'', name = js ''Claude 4.5 Sonnet'', reasoning = False,
      contextWindow = 200000, maxTokens = 32000\<rparr>,
     \<lparr>id' = js ''gpt-5.3-codex'', name = js ''GPT-5.3 Codex'', reasoning = False,
      contextWindow = 200000, maxTokens = 32768\<rparr>,
     \<lparr>id' = js ''gpt-5.3-codex-low'', name = js ''GPT-5.3 Codex Low'', reasoning = False,
      contextWindow = 200000, maxTokens = 32768\<rparr>,
     \<lparr>id' = js ''gpt-5.3-codex-high'', name = js ''GPT-5.3 Codex High'', reasoning = True,
      contextWindow = 200000, maxTokens = 32768\<rparr>,
     \<lparr>id' = js ''gpt-5.3-codex-xhigh'', name = js ''GPT-5.3 Codex Extra High'', reasoning = True,
      contextWindow = 200000, maxTokens = 32768\<rparr>,
     \<lparr>id' = js ''gpt-5.3-codex-fast'', name = js ''GPT-5.3 Codex Fast'', reasoning = False,
      contextWindow = 200000, maxTokens = 32768\<rparr>,
     \<lparr>id' = js ''gpt-5.3-codex-low-fast'', name = js ''GPT-5.3 Codex Low Fast'', reasoning = False,
      contextWindow = 200000, maxTokens = 32768\<rparr>,
     \<lparr>id' = js ''gpt-5.3-codex-high-fast'', name = js ''GPT-5.3 Codex High Fast'', reasoning = True,
      contextWindow = 200000, maxTokens = 32768\<rparr>,
     \<lparr>id' = js ''gpt-5.3-codex-xhigh-fast'', name = js ''GPT-5.3 Codex Extra High Fast'', reasoning = True,
      contextWindow = 200000, maxTokens = 32768\<rparr>,
     \<lparr>id' = js ''gpt-5.2'', name = js ''GPT-5.2'', reasoning = False,
      contextWindow = 200000, maxTokens = 32768\<rparr>,
     \<lparr>id' = js ''gpt-5.2-high'', name = js ''GPT-5.2 High'', reasoning = True,
      contextWindow = 200000, maxTokens = 32768\<rparr>,
     \<lparr>id' = js ''gpt-5.2-codex'', name = js ''GPT-5.2 Codex'', reasoning = False,
      contextWindow = 200000, maxTokens = 32768\<rparr>,
     \<lparr>id' = js ''gpt-5.2-codex-high'', name = js ''GPT-5.2 Codex High'', reasoning = True,
      contextWindow = 200000, maxTokens = 32768\<rparr>,
     \<lparr>id' = js ''gpt-5.2-codex-low'', name = js ''GPT-5.2 Codex Low'', reasoning = False,
      contextWindow = 200000, maxTokens = 32768\<rparr>,
     \<lparr>id' = js ''gpt-5.2-codex-xhigh'', name = js ''GPT-5.2 Codex Extra High'', reasoning = True,
      contextWindow = 200000, maxTokens = 32768\<rparr>,
     \<lparr>id' = js ''gpt-5.2-codex-fast'', name = js ''GPT-5.2 Codex Fast'', reasoning = False,
      contextWindow = 200000, maxTokens = 32768\<rparr>,
     \<lparr>id' = js ''gpt-5.2-codex-high-fast'', name = js ''GPT-5.2 Codex High Fast'', reasoning = True,
      contextWindow = 200000, maxTokens = 32768\<rparr>,
     \<lparr>id' = js ''gpt-5.2-codex-low-fast'', name = js ''GPT-5.2 Codex Low Fast'', reasoning = False,
      contextWindow = 200000, maxTokens = 32768\<rparr>,
     \<lparr>id' = js ''gpt-5.2-codex-xhigh-fast'', name = js ''GPT-5.2 Codex Extra High Fast'', reasoning = True,
      contextWindow = 200000, maxTokens = 32768\<rparr>,
     \<lparr>id' = js ''gpt-5.1-high'', name = js ''GPT-5.1 High'', reasoning = True,
      contextWindow = 200000, maxTokens = 32768\<rparr>,
     \<lparr>id' = js ''gpt-5.1-codex-max'', name = js ''GPT-5.1 Codex Max'', reasoning = True,
      contextWindow = 200000, maxTokens = 32768\<rparr>,
     \<lparr>id' = js ''gpt-5.1-codex-max-high'', name = js ''GPT-5.1 Codex Max High'', reasoning = True,
      contextWindow = 200000, maxTokens = 32768\<rparr>,
     \<lparr>id' = js ''gpt-5.1-codex-mini'', name = js ''GPT-5.1 Codex Mini'', reasoning = False,
      contextWindow = 200000, maxTokens = 32768\<rparr>,
     \<lparr>id' = js ''gemini-3-pro'', name = js ''Gemini 3 Pro'', reasoning = False,
      contextWindow = 1000000, maxTokens = 65536\<rparr>,
     \<lparr>id' = js ''gemini-3-flash'', name = js ''Gemini 3 Flash'', reasoning = False,
      contextWindow = 1000000, maxTokens = 65536\<rparr>,
     \<lparr>id' = js ''grok'', name = js ''Grok'', reasoning = False,
      contextWindow = 131072, maxTokens = 32768\<rparr>
   ]"

text \<open>\<open>new Map(entries)\<close>: a later entry with the same key replaces an earlier one.\<close>

definition STATIC_MODELS_MAP :: "jsstring \<rightharpoonup> CursorModelDef" where
  "STATIC_MODELS_MAP = foldl (\<lambda>m d. m(id' d \<mapsto> d)) Map.empty STATIC_MODELS"

section \<open>Dynamic model discovery\<close>

definition DISCOVERY_TIMEOUT_MS :: nat where
  "DISCOVERY_TIMEOUT_MS = 15000"

text \<open>\<^verbatim>\<open>/(-thinking|-high|-xhigh|-max-high)$/\<close>\<close>

definition reasoningRe :: regex where
  "reasoningRe =
     Seq (Group 1 (Alt (Lit (js ''-thinking''))
                  (Alt (Lit (js ''-high''))
                  (Alt (Lit (js ''-xhigh'')) (Lit (js ''-max-high''))))))
         Eol"

definition inferReasoning :: "jsstring \<Rightarrow> bool" where
  "inferReasoning i = test reasoningRe i"

text \<open>
  \<^verbatim>\<open>/^([a-zA-Z0-9][a-zA-Z0-9._-]*)\s+-\s+(.+?)(?:\s+\((?:current|default|current,\s*default)\))?$/\<close>
\<close>

definition isAlnum :: "jschar \<Rightarrow> bool" where
  "isAlnum c =
     (let n = unat c in
      (0x61 \<le> n \<and> n \<le> 0x7A) \<or> (0x41 \<le> n \<and> n \<le> 0x5A) \<or> (0x30 \<le> n \<and> n \<le> 0x39))"

definition isIdChar :: "jschar \<Rightarrow> bool" where
  "isIdChar c = (isAlnum c \<or> unat c \<in> {0x2E, 0x5F, 0x2D})"

definition isDot :: "jschar \<Rightarrow> bool" where
  "isDot c = (\<not> isLineTerminator c)"

definition statusRe :: regex where
  "statusRe =
     Seq (Plus (Chr isSpace))
    (Seq (Lit (js ''(''))
    (Seq (Alt (Lit (js ''current''))
         (Alt (Lit (js ''default''))
              (Seq (Lit (js ''current,'')) (Seq (Star (Chr isSpace)) (Lit (js ''default''))))))
         (Lit (js '')''))))"

definition lineRe :: regex where
  "lineRe =
     Seq Bol
    (Seq (Group 1 (Seq (Chr isAlnum) (Star (Chr isIdChar))))
    (Seq (Plus (Chr isSpace))
    (Seq (Lit (js ''-''))
    (Seq (Plus (Chr isSpace))
    (Seq (Group 2 (LazyPlus (Chr isDot)))
    (Seq (Opt statusRe)
         Eol))))))"

text \<open>
  The body of the loop of \<open>parseAgentModelsOutput\<close> for one line: \<open>None\<close> is
  \<open>continue\<close>. Both groups take part in every match of \<open>lineRe\<close>; the empty text
  stands for a group that did not.
\<close>

definition parseModelLine :: "jsstring \<Rightarrow> CursorModelDef option" where
  "parseModelLine line =
     (let trimmed = trim line in
      if trimmed = [] \<or> startsWith trimmed (js ''Available'') \<or> startsWith trimmed (js ''Tip:'')
      then None
      else (case exec lineRe trimmed of
              None \<Rightarrow> None
            | Some match \<Rightarrow>
                (let i = trim (case group match 1 of Some g \<Rightarrow> g | None \<Rightarrow> []);
                     rawName = trim (case group match 2 of Some g \<Rightarrow> g | None \<Rightarrow> []);
                     known = STATIC_MODELS_MAP i
                 in Some \<lparr>id' = i, name = rawName,
                      reasoning = (case known of Some k \<Rightarrow> reasoning k | None \<Rightarrow> inferReasoning i),
                      contextWindow = (case known of Some k \<Rightarrow> contextWindow k | None \<Rightarrow> 200000),
                      maxTokens = (case known of Some k \<Rightarrow> maxTokens k | None \<Rightarrow> 32768)\<rparr>)))"

definition parseAgentModelsOutput :: "jsstring \<Rightarrow> CursorModelDef list" where
  "parseAgentModelsOutput output = List.map_filter parseModelLine (split 0x0A output)"

subsection \<open>The discovery call\<close>

text \<open>
  \<open>runAgentModels\<close> registers callbacks on the child process and a timer; what Node
  then delivers is a sequence of events. The promise is settled by the first
  \<open>resolve\<close> or \<open>reject\<close>; later ones do nothing.

  The handle emits \<open>error\<close> when the child cannot be spawned, and when \<open>kill\<close>
  cannot send its signal. The second happens inside the call of \<open>kill\<close>, which this
  function makes only in the callback of the timer: the argument of \<open>TimeoutFired\<close>
  is the error of that call, if any, and the listener of \<open>error\<close> runs before the
  callback goes on. \<open>ChildError\<close> is the event of a spawn failure.
\<close>

datatype discovery_event =
    StdoutData jsstring
  | StderrData jsstring
  | TimeoutFired "jsstring option"
  | ChildError jsstring
  | ChildClose "int option"

datatype 'a promise = Pending | Resolved 'a | Rejected jsstring

record discovery_state =
  stdout :: jsstring
  stderr :: jsstring
  timerArmed :: bool
  sigterms :: nat
  promise :: "CursorModelDef list promise"

definition resolve :: "CursorModelDef list \<Rightarrow> discovery_state \<Rightarrow> discovery_state" where
  "resolve v s = (if promise s = Pending then s\<lparr>promise := Resolved v\<rparr> else s)"

definition reject :: "jsstring \<Rightarrow> discovery_state \<Rightarrow> discovery_state" where
  "reject e s = (if promise s = Pending then s\<lparr>promise := Rejected e\<rparr> else s)"

definition clearTimeout :: "discovery_state \<Rightarrow> discovery_state" where
  "clearTimeout s = s\<lparr>timerArmed := False\<rparr>"

text \<open>The text of the exit code in a template literal: \<open>null\<close> when a signal ended the child.\<close>

definition showCode :: "int option \<Rightarrow> jsstring" where
  "showCode code = (case code of None \<Rightarrow> js ''null'' | Some n \<Rightarrow> showInt n)"

definition discovery_init :: discovery_state where
  "discovery_init = \<lparr>stdout = [], stderr = [], timerArmed = True, sigterms = 0, promise = Pending\<rparr>"

definition onChildError :: "jsstring \<Rightarrow> discovery_state \<Rightarrow> discovery_state" where
  "onChildError err s = reject err (clearTimeout s)"

text \<open>
  \<open>sigterms\<close> counts the calls of \<open>kill\<close>. A timer that was cleared, or has fired,
  does not fire.
\<close>

fun discovery_step :: "discovery_state \<Rightarrow> discovery_event \<Rightarrow> discovery_state" where
  "discovery_step s (StdoutData chunk) = s\<lparr>stdout := stdout s @ chunk\<rparr>"
| "discovery_step s (StderrData chunk) = s\<lparr>stderr := stderr s @ chunk\<rparr>"
| "discovery_step s (TimeoutFired killError) =
     (if timerArmed s
      then (let s1 = s\<lparr>timerArmed := False, sigterms := sigterms s + 1\<rparr>;
                s2 = (case killError of None \<Rightarrow> s1 | Some err \<Rightarrow> onChildError err s1)
            in reject (js ''agent models timed out after '' @ digits DISCOVERY_TIMEOUT_MS @ js ''ms'') s2)
      else s)"
| "discovery_step s (ChildError err) = onChildError err s"
| "discovery_step s (ChildClose code) =
     (let s1 = clearTimeout s in
      if code \<noteq> Some 0
      then reject (js ''agent models exited with code '' @ showCode code @ js '': '' @ trim (stderr s1)) s1
      else (let models = parseAgentModelsOutput (stdout s1) in
            if length models = 0
            then reject (js ''agent models returned no models'') s1
            else resolve models s1))"

definition runAgentModels :: "discovery_event list \<Rightarrow> discovery_state" where
  "runAgentModels evs = foldl discovery_step discovery_init evs"

section \<open>NDJSON events\<close>

text \<open>
  The events follow the interfaces declared in \<^verbatim>\<open>index.ts\<close>. The cast in \<open>parseLine\<close>
  is unchecked; values outside the declared union, on some of which the handler of a line
  throws, are not modelled. A text block is its \<open>type\<close> and its \<open>text\<close>. The
  \<open>tool_call\<close> record is its entries in the order of \<open>Object.keys\<close>, each a key and
  the \<open>args\<close> of its payload: \<open>None\<close> when \<open>args\<close> is absent or \<open>null\<close>, the two
  cases in which \<open>??\<close> takes its right operand. \<open>'j\<close> is the type of the other JSON
  values.
\<close>

datatype CursorTextBlock = CursorTextBlock (block_type: jsstring) (block_text: jsstring)

datatype 'j CursorStreamEvent =
    CursorAssistantEvent "CursorTextBlock list"
  | CursorToolCallEvent jsstring "(jsstring \<times> 'j option) list"
  | CursorResultEvent jsstring
  | CursorOtherEvent

datatype js_error = SyntaxError | TypeError

text \<open>
  \<open>JSON.parse\<close> is a parameter \<open>parse\<close>: it throws (\<open>Inl\<close>) or returns \<open>null\<close>
  (\<open>Inr None\<close>) or another value. \<open>parseLine\<close> returns \<open>null\<close> as \<open>None\<close>.
\<close>

definition parseLine :: "(jsstring \<Rightarrow> js_error + 'v option) \<Rightarrow> jsstring \<Rightarrow> 'v option" where
  "parseLine parse line =
     (let trimmed = trim line in
      if trimmed = [] then None
      else (case parse trimmed of Inr v \<Rightarrow> v | Inl _ \<Rightarrow> None))"

section \<open>Tool name mapping\<close>

text \<open>
  \<open>TOOL_NAME_MAP\<close> is an object literal: a lookup finds its thirteen entries and, as
  on every such object, the members that it inherits from \<open>Object.prototype\<close>. What a
  lookup finds is a text, or the inherited member of that name.
\<close>

datatype tool_name = ToolName jsstring | Inherited jsstring

definition objectPrototypeKeys :: "jsstring list" where
  "objectPrototypeKeys = [
     js ''constructor'', js ''__defineGetter__'', js ''__defineSetter__'',
     js ''hasOwnProperty'', js ''__lookupGetter__'', js ''__lookupSetter__'',
     js ''isPrototypeOf'', js ''propertyIsEnumerable'', js ''toString'', js ''valueOf'',
     js ''__proto__'', js ''toLocaleString'']"

definition toolNames :: "(jsstring \<times> jsstring) list" where
  "toolNames = [
     (js ''shellToolCall'', js ''Shell''),
     (js ''readToolCall'', js ''Read''),
     (js ''editToolCall'', js ''Edit''),
     (js ''writeToolCall'', js ''Write''),
     (js ''deleteToolCall'', js ''Delete''),
     (js ''grepToolCall'', js ''Grep''),
     (js ''globToolCall'', js ''Glob''),
     (js ''lsToolCall'', js ''Ls''),
     (js ''todoToolCall'', js ''Todo''),
     (js ''updateTodosToolCall'', js ''UpdateTodos''),
     (js ''findToolCall'', js ''Find''),
     (js ''webFetchToolCall'', js ''WebFetch''),
     (js ''webSearchToolCall'', js ''WebSearch'')
   ]"

definition TOOL_NAME_MAP :: "jsstring \<rightharpoonup> tool_name" where
  "TOOL_NAME_MAP k =
     (case map_of toolNames k of
        Some n \<Rightarrow> Some (ToolName n)
      | None \<Rightarrow> if k \<in> set objectPrototypeKeys then Some (Inherited k) else None)"

definition toolCallRe :: regex where
  "toolCallRe = Seq (Lit (js ''ToolCall'')) Eol"

definition toPiToolName :: "jsstring \<Rightarrow> tool_name" where
  "toPiToolName cliKey =
     (case TOOL_NAME_MAP cliKey of
        Some n \<Rightarrow> n
      | None \<Rightarrow> ToolName (replace cliKey toolCallRe []))"

text \<open>
  The text of a name in a template literal. An inherited member is a built-in function,
  whose text in Node is \<^verbatim>\<open>function f() { [native code] }\<close> with its name \<open>f\<close>
  (\<open>Object\<close> for \<open>constructor\<close>, and otherwise the key); \<open>__proto__\<close> is the prototype
  object itself, whose text is \<^verbatim>\<open>[object Object]\<close>.
\<close>

fun templateText :: "tool_name \<Rightarrow> jsstring" where
  "templateText (ToolName n) = n"
| "templateText (Inherited k) =
     (if k = js ''__proto__'' then js ''[object Object]''
      else js ''function '' @ (if k = js ''constructor'' then js ''Object'' else k)
           @ js ''() { [native code] }'')"

section \<open>The streaming backend\<close>

datatype StopReason = Stop | Aborted | Error

datatype Content = TextContent (content_text: jsstring)

record AssistantMessage =
  content :: "Content list"
  stopReason :: StopReason
  errorMessage :: "jsstring option"

text \<open>
  The calls on the event stream, in order. Every event of the source also carries the
  one mutable \<open>output\<close> object (\<open>partial\<close>, \<open>message\<close>, \<open>error\<close>); its value is the
  \<open>output\<close> of the state.
\<close>

datatype AssistantMessageEvent =
    EvStart
  | EvTextStart nat
  | EvTextDelta nat jsstring
  | EvTextEnd nat jsstring
  | EvDone StopReason
  | EvError StopReason

datatype stream_call = Push AssistantMessageEvent | End

record stream_state =
  output' :: AssistantMessage
  textBlockOpen :: bool
  accumulatedText :: jsstring
  stderrChunks :: "jsstring list"
  signalAborted :: bool
  abortListener :: bool
  kills :: nat
  calls :: "stream_call list"

text \<open>What Node delivers to the callbacks that \<open>streamCursorCli\<close> registers.\<close>

datatype child_event =
    Line jsstring
  | StderrChunk jsstring
  | Abort
  | Close "int option"
  | SpawnError jsstring

text \<open>The loop over \<open>ae.message.content\<close>.\<close>

fun assistantBlocks :: "CursorTextBlock list \<Rightarrow> stream_state \<Rightarrow> js_error + stream_state" where
  "assistantBlocks [] s = Inr s"
| "assistantBlocks (block # blocks) s =
     (if block_type block \<noteq> js ''text'' then assistantBlocks blocks s
      else if trim (block_text block) = [] then assistantBlocks blocks s
      else
        (let s1 = (if \<not> textBlockOpen s
                   then (let c = content (output' s) @ [TextContent []]
                         in s\<lparr>output' := (output' s)\<lparr>content := c\<rparr>,
                              calls := calls s @ [Push (EvTextStart (length c - 1))],
                              textBlockOpen := True\<rparr>)
                   else s);
             c1 = content (output' s1);
             idx = length c1 - 1
         in if c1 = [] then Inl TypeError
            else assistantBlocks blocks
                   (s1\<lparr>output' := (output' s1)\<lparr>content :=
                          c1[idx := TextContent (content_text (c1 ! idx) @ block_text block)]\<rparr>,
                        accumulatedText := accumulatedText s1 @ block_text block,
                        calls := calls s1 @ [Push (EvTextDelta idx (block_text block))]\<rparr>)))"

definition ellipsis :: jschar where
  "ellipsis = 0x2026"

definition hourglass :: jschar where
  "hourglass = 0x23F3"

definition toolMarker :: "tool_name \<Rightarrow> jsstring \<Rightarrow> jsstring" where
  "toolMarker toolName argsSnippet =
     (let brief = (if length argsSnippet > 120 then take 120 argsSnippet @ [ellipsis]
                   else argsSnippet)
      in [0x0A, hourglass] @ js '' ['' @ templateText toolName @ js ''] '' @ brief @ [0x0A])"

text \<open>
  The \<open>tool_call\<close> branch; \<open>stringify\<close> is \<open>JSON.stringify\<close>, and the text of the
  empty object is \<open>{}\<close>.
\<close>

definition toolCall ::
  "('j \<Rightarrow> jsstring) \<Rightarrow> jsstring \<Rightarrow> (jsstring \<times> 'j option) list \<Rightarrow> stream_state
   \<Rightarrow> js_error + stream_state" where
  "toolCall stringify subtype tool_call s =
     (case tool_call of
        [] \<Rightarrow> Inr s
      | (cliKey, args) # _ \<Rightarrow>
          if cliKey = [] then Inr s
          else
            (let toolName = toPiToolName cliKey in
             if subtype = js ''started''
             then
               (let argsSnippet = (case args of None \<Rightarrow> js ''{}'' | Some a \<Rightarrow> stringify a);
                    marker = toolMarker toolName argsSnippet;
                    s1 = (if \<not> textBlockOpen s
                          then (let c = content (output' s) @ [TextContent []]
                                in s\<lparr>output' := (output' s)\<lparr>content := c\<rparr>,
                                     calls := calls s @ [Push (EvTextStart (length c - 1))],
                                     textBlockOpen := True\<rparr>)
                          else s);
                    c1 = content (output' s1);
                    idx = length c1 - 1
                in if c1 = [] then Inl TypeError
                   else Inr (s1\<lparr>output' := (output' s1)\<lparr>content :=
                                 c1[idx := TextContent (content_text (c1 ! idx) @ marker)]\<rparr>,
                               accumulatedText := accumulatedText s1 @ marker,
                               calls := calls s1 @ [Push (EvTextDelta idx marker)]\<rparr>))
             else Inr s))"

definition onEvent ::
  "('j \<Rightarrow> jsstring) \<Rightarrow> 'j CursorStreamEvent \<Rightarrow> stream_state \<Rightarrow> js_error + stream_state" where
  "onEvent stringify event s =
     (case event of
        CursorAssistantEvent blocks \<Rightarrow> assistantBlocks blocks s
      | CursorToolCallEvent subtype tool_call \<Rightarrow> toolCall stringify subtype tool_call s
      | _ \<Rightarrow> Inr s)"

definition onLine ::
  "(jsstring \<Rightarrow> js_error + 'j CursorStreamEvent option) \<Rightarrow> ('j \<Rightarrow> jsstring) \<Rightarrow> jsstring
   \<Rightarrow> stream_state \<Rightarrow> js_error + stream_state" where
  "onLine parse stringify line s =
     (case parseLine parse line of
        None \<Rightarrow> Inr s
      | Some event \<Rightarrow> onEvent stringify event s)"

text \<open>The \<open>abort\<close> event of the signal: it fires once; the listener was added with \<open>once\<close>.\<close>

definition onAbort :: "stream_state \<Rightarrow> stream_state" where
  "onAbort s =
     (if signalAborted s then s
      else if abortListener s
      then s\<lparr>signalAborted := True, abortListener := False, kills := kills s + 1\<rparr>
      else s\<lparr>signalAborted := True\<rparr>)"

definition onClose :: "int option \<Rightarrow> stream_state \<Rightarrow> stream_state" where
  "onClose code s0 =
     (let s = s0\<lparr>abortListener := False\<rparr>;
          s1 = (if textBlockOpen s
                then s\<lparr>calls := calls s @
                         [Push (EvTextEnd (length (content (output' s)) - 1) (accumulatedText s))],
                       textBlockOpen := False\<rparr>
                else s)
      in if signalAborted s1
         then s1\<lparr>output' := (output' s1)\<lparr>stopReason := Aborted\<rparr>,
                 calls := calls s1 @ [Push (EvError Aborted), End]\<rparr>
         else if code \<noteq> Some 0 \<and> accumulatedText s1 = []
         then (let stderr = trim (concat (stderrChunks s1))
               in s1\<lparr>output' := (output' s1)\<lparr>stopReason := Error,
                         errorMessage := Some (if stderr \<noteq> [] then stderr
                              else js ''Cursor CLI exited with code '' @ showCode code)\<rparr>,
                       calls := calls s1 @ [Push (EvError Error), End]\<rparr>)
         else s1\<lparr>calls := calls s1 @ [Push (EvDone Stop), End]\<rparr>)"

definition onError :: "jsstring \<Rightarrow> stream_state \<Rightarrow> stream_state" where
  "onError message s =
     s\<lparr>abortListener := False,
       output' := (output' s)\<lparr>stopReason := Error, errorMessage := Some message\<rparr>,
       calls := calls s @ [Push (EvError Error), End]\<rparr>"

fun step ::
  "(jsstring \<Rightarrow> js_error + 'j CursorStreamEvent option) \<Rightarrow> ('j \<Rightarrow> jsstring)
   \<Rightarrow> stream_state \<Rightarrow> child_event \<Rightarrow> js_error + stream_state" where
  "step parse stringify s (Line line) = onLine parse stringify line s"
| "step parse stringify s (StderrChunk chunk) = Inr (s\<lparr>stderrChunks := stderrChunks s @ [chunk]\<rparr>)"
| "step parse stringify s Abort = Inr (onAbort s)"
| "step parse stringify s (Close code) = Inr (onClose code s)"
| "step parse stringify s (SpawnError message) = Inr (onError message s)"

fun run ::
  "(jsstring \<Rightarrow> js_error + 'j CursorStreamEvent option) \<Rightarrow> ('j \<Rightarrow> jsstring)
   \<Rightarrow> stream_state \<Rightarrow> child_event list \<Rightarrow> js_error + stream_state" where
  "run parse stringify s [] = Inr s"
| "run parse stringify s (e # es) =
     (case step parse stringify s e of
        Inl err \<Rightarrow> Inl err
      | Inr s' \<Rightarrow> run parse stringify s' es)"

text \<open>
  The state when the callbacks are registered: the \<open>start\<close> event is pushed, the child
  is spawned, the abort listener is added when the caller gave a signal. \<open>signal\<close> is
  \<open>None\<close> without a signal and otherwise says whether it had fired already.
\<close>

definition initial :: "bool option \<Rightarrow> stream_state" where
  "initial signal =
     \<lparr>output' = \<lparr>content = [], stopReason = Stop, errorMessage = None\<rparr>,
      textBlockOpen = False, accumulatedText = [], stderrChunks = [],
      signalAborted = (signal = Some True), abortListener = (signal \<noteq> None), kills = 0,
      calls = [Push EvStart]\<rparr>"

definition streamCursorCli ::
  "(jsstring \<Rightarrow> js_error + 'j CursorStreamEvent option) \<Rightarrow> ('j \<Rightarrow> jsstring)
   \<Rightarrow> bool option \<Rightarrow> child_event list \<Rightarrow> js_error + stream_state" where
  "streamCursorCli parse stringify signal events = run parse stringify (initial signal) events"

definition fragments :: "CursorTextBlock list \<Rightarrow> jsstring list" where
  "fragments blocks =
     map block_text (filter (\<lambda>b. block_type b = js ''text'' \<and> trim (block_text b) \<noteq> []) blocks)"

definition processFragment :: "jsstring \<Rightarrow> stream_state \<Rightarrow> stream_state" where
  "processFragment frag s =
     (let s1 = (if textBlockOpen s then s
                else s\<lparr>output' := (output' s)\<lparr>content := content (output' s) @ [TextContent []]\<rparr>,
                       calls := calls s @ [Push (EvTextStart (length (content (output' s))))],
                       textBlockOpen := True\<rparr>);
          idx = length (content (output' s1)) - 1
      in s1\<lparr>output' := (output' s1)\<lparr>content :=
                (content (output' s1))[idx :=
                   TextContent (content_text (content (output' s1) ! idx) @ frag)]\<rparr>,
            accumulatedText := accumulatedText s1 @ frag,
            calls := calls s1 @ [Push (EvTextDelta idx frag)]\<rparr>)"

definition blockInv :: "stream_state \<Rightarrow> bool" where
  "blockInv s = (textBlockOpen s \<longrightarrow> content (output' s) \<noteq> [])"


text \<open>The events that end a stream, and the closing of a text block.\<close>

fun isTerminal :: "stream_call \<Rightarrow> bool" where
  "isTerminal (Push (EvDone _)) = True"
| "isTerminal (Push (EvError _)) = True"
| "isTerminal _ = False"

fun isTextEnd :: "stream_call \<Rightarrow> bool" where
  "isTextEnd (Push (EvTextEnd _ _)) = True"
| "isTextEnd _ = False"

text \<open>
  The discipline of text blocks on a sequence of calls, read from the left with the
  index of the open block: \<open>text_start\<close> only when no block is open, \<open>text_delta\<close>
  and \<open>text_end\<close> only for the open block, \<open>done\<close> and \<open>error\<close> only when no block
  is open. \<open>None\<close> is a violation.
\<close>

fun brStep :: "nat option \<Rightarrow> stream_call \<Rightarrow> nat option option" where
  "brStep b (Push (EvTextStart n)) = (if b = None then Some (Some n) else None)"
| "brStep b (Push (EvTextDelta n _)) = (if b = Some n then Some b else None)"
| "brStep b (Push (EvTextEnd n _)) = (if b = Some n then Some None else None)"
| "brStep b (Push (EvDone _)) = (if b = None then Some None else None)"
| "brStep b (Push (EvError _)) = (if b = None then Some None else None)"
| "brStep b (Push EvStart) = Some b"
| "brStep b End = Some b"

definition bracket :: "stream_call list \<Rightarrow> nat option option" where
  "bracket cs = foldl (\<lambda>acc c. case acc of None \<Rightarrow> None | Some b \<Rightarrow> brStep b c) (Some None) cs"

text \<open>The events of a running child: output, diagnostics and cancellation.\<close>

fun streaming :: "child_event \<Rightarrow> bool" where
  "streaming (Close _) = False"
| "streaming (SpawnError _) = False"
| "streaming _ = True"

text \<open>
  The \<open>error\<close> event of the handle reports a spawn failure: it comes before any line
  of output. The flag says whether a line has come.
\<close>

fun errorsBeforeOutput :: "bool \<Rightarrow> child_event list \<Rightarrow> bool" where
  "errorsBeforeOutput seen [] = True"
| "errorsBeforeOutput seen (Line _ # es) = errorsBeforeOutput True es"
| "errorsBeforeOutput seen (SpawnError _ # es) = (\<not> seen \<and> errorsBeforeOutput seen es)"
| "errorsBeforeOutput seen (_ # es) = errorsBeforeOutput seen es"

definition bracketInv :: "stream_state \<Rightarrow> bool" where
  "bracketInv s =
     (blockInv s \<and>
      bracket (calls s) =
        Some (if textBlockOpen s then Some (length (content (output' s)) - 1) else None))"

text \<open>The chunks of diagnostic output among the events, in order.\<close>

fun stderrOf :: "child_event list \<Rightarrow> jsstring list" where
  "stderrOf [] = []"
| "stderrOf (StderrChunk chunk # es) = chunk # stderrOf es"
| "stderrOf (_ # es) = stderrOf es"

text \<open>The calls that end a stream: a terminal event, or \<open>end\<close>.\<close>

definition isFinal :: "stream_call \<Rightarrow> bool" where
  "isFinal c = (isTerminal c \<or> c = End)"

definition streamingInv :: "stream_state \<Rightarrow> bool" where
  "streamingInv s =
     (blockInv s \<and> stopReason (output' s) = Stop \<and> errorMessage (output' s) = None
      \<and> filter isFinal (calls s) = [] \<and> filter isTextEnd (calls s) = [])"

text \<open>
  \<open>JSON.parse\<close> on the lines of an example: the table gives the value of each line
  that decodes (\<open>None\<close> is \<open>null\<close>); every other text is a syntax error.
\<close>

definition decodeAs :: "(jsstring \<times> 'v option) list \<Rightarrow> jsstring \<Rightarrow> js_error + 'v option" where
  "decodeAs table l = (case map_of table l of Some v \<Rightarrow> Inr v | None \<Rightarrow> Inl SyntaxError)"

text \<open>Scenario A of the specification: one line with the text \<open>Hi\<close>.\<close>

definition scenarioA_line :: jsstring where
  "scenarioA_line =
     js ''{\"type\":\"assistant\",\"message\":{\"content\":[{\"type\":\"text\",\"text\":\"Hi\"}]}}''"

definition scenarioA_parse :: "jsstring \<Rightarrow> js_error + unit CursorStreamEvent option" where
  "scenarioA_parse =
     decodeAs [(scenarioA_line,
                Some (CursorAssistantEvent [CursorTextBlock (js ''text'') (js ''Hi'')]))]"

text \<open>The events of the discovery call that carry output, and the output they carry.\<close>

fun dataEvent :: "discovery_event \<Rightarrow> bool" where
  "dataEvent (StdoutData _) = True"
| "dataEvent (StderrData _) = True"
| "dataEvent _ = False"

fun stdoutOf :: "discovery_event list \<Rightarrow> jsstring" where
  "stdoutOf [] = []"
| "stdoutOf (StdoutData chunk # es) = chunk @ stdoutOf es"
| "stdoutOf (_ # es) = stdoutOf es"

fun stderrDataOf :: "discovery_event list \<Rightarrow> jsstring" where
  "stderrDataOf [] = []"
| "stderrDataOf (StderrData chunk # es) = chunk @ stderrDataOf es"
| "stderrDataOf (_ # es) = stderrDataOf es"

text \<open>Scenario D of the specification: the output of the discovery call.\<close>

definition scenarioD_output :: jsstring where
  "scenarioD_output = js ''auto - Auto\<newline>sonnet-4.6 - Claude 4.6 Sonnet  (current)\<newline>''"

text \<open>The events that can settle the promise, and a promise that is rejected.\<close>

fun timeoutElapsed :: "discovery_event \<Rightarrow> bool" where
  "timeoutElapsed (TimeoutFired _) = True"
| "timeoutElapsed _ = False"

fun exitedNonZero :: "discovery_event \<Rightarrow> bool" where
  "exitedNonZero (ChildClose code) = (code \<noteq> Some 0)"
| "exitedNonZero _ = False"

fun spawnFailure :: "discovery_event \<Rightarrow> bool" where
  "spawnFailure (ChildError _) = True"
| "spawnFailure _ = False"

fun isRejected :: "'a promise \<Rightarrow> bool" where
  "isRejected (Rejected _) = True"
| "isRejected _ = False"

text \<open>The first way in which a pattern matches at a state, if there is one.\<close>

definition firstMatch :: "regex \<Rightarrow> mstate \<Rightarrow> mstate option" where
  "firstMatch r st = (case ms r st of [] \<Rightarrow> None | m # _ \<Rightarrow> Some m)"

text \<open>
  A status marker as \<open>statusRe\<close> accepts it: white space, then \<open>(current)\<close>,
  \<open>(default)\<close> or \<open>(current,\<close> and \<open>default)\<close> with any white space between them.
\<close>

definition statusMarker :: "jsstring \<Rightarrow> bool" where
  "statusMarker w =
     (let t = dropWhile isSpace w in
      t \<noteq> w \<and>
      (t = js ''(current)'' \<or> t = js ''(default)'' \<or>
       (startsWith t (js ''(current,'') \<and> dropWhile isSpace (drop 9 t) = js ''default)'')))"

text \<open>
  The lines of the discovery output. An identifier starts with a letter or digit and
  goes on with letters, digits, dots, underscores and hyphens. Separating white space is
  not empty. A display name is not empty and has no line terminator and no white space
  at either end. It is followed by the status marker that ends the line; or by nothing,
  and then no proper end of the name is a status marker.
\<close>

definition modelIdent :: "jsstring \<Rightarrow> bool" where
  "modelIdent i = (i \<noteq> [] \<and> isAlnum (hd i) \<and> list_all isIdChar (tl i))"

definition whiteSpace :: "jsstring \<Rightarrow> bool" where
  "whiteSpace w = (w \<noteq> [] \<and> list_all isSpace w)"

definition displayName :: "jsstring \<Rightarrow> bool" where
  "displayName n =
     (n \<noteq> [] \<and> list_all isDot n \<and> \<not> isSpace (hd n) \<and> \<not> isSpace (last n))"

definition statusSuffix :: "jsstring \<Rightarrow> jsstring \<Rightarrow> bool" where
  "statusSuffix n marker =
     (if marker = [] then list_all (\<lambda>k. \<not> statusMarker (drop k n)) [1..<length n]
      else statusMarker marker)"

lemmas chr_defs = js_def jc_def isSpace_def isWhiteSpace_def isLineTerminator_def isAlnum_def isIdChar_def isDot_def
lemmas re_defs = exec_def test_def group_def replace_def Plus_def LazyPlus_def Opt_def lineRe_def statusRe_def reasoningRe_def toolCallRe_def

lemma unat_jc: "unat (jc c) = of_char c"
proof -
  have "(of_char c :: nat) < 65536"
    using nat_of_char_less_256 [of c] by linarith
  then show ?thesis
    by (simp add: jc_def unat_of_nat)
qed

lemma jc_eq_iff: "jc a = jc b \<longleftrightarrow> a = b"
proof
  assume "jc a = jc b"
  then have "unat (jc a) = unat (jc b)" by simp
  then show "a = b" by (simp add: unat_jc)
qed simp

lemma inj_jc: "inj jc"
  by (rule injI) (simp add: jc_eq_iff)

lemma js_eq_iff: "js a = js b \<longleftrightarrow> a = b"
  by (simp add: js_def inj_map_eq_map [OF inj_jc])

lemma length_js: "length (js s) = length s"
  by (simp add: js_def)

lemma ms_Lit:
  "ms (Lit w) (pre, rest, caps) =
     (if take (length w) rest = w then [(pre @ w, drop (length w) rest, caps)] else [])"
proof (induction w arbitrary: pre rest)
  case Nil
  then show ?case by simp
next
  case (Cons c cs)
  show ?case
  proof (cases rest)
    case Nil
    then show ?thesis by simp
  next
    case (Cons x xs)
    then show ?thesis using Cons.IH [of "pre @ [x]" xs] by auto
  qed
qed

lemma exec_from_None:
  "exec_from r pre rest = None \<longleftrightarrow> (\<forall>k\<le>length rest. ms r (pre @ take k rest, drop k rest, Map.empty) = [])"
proof (induction rest arbitrary: pre)
  case Nil
  then show ?case by (simp split: list.splits)
next
  case (Cons c cs)
  have "(\<forall>k\<le>length (c # cs). ms r (pre @ take k (c # cs), drop k (c # cs), Map.empty) = [])
     \<longleftrightarrow> ms r (pre, c # cs, Map.empty) = [] \<and>
         (\<forall>k\<le>length cs. ms r ((pre @ [c]) @ take k cs, drop k cs, Map.empty) = [])"
    (is "?L \<longleftrightarrow> ?A \<and> ?B")
  proof
    assume L: ?L
    have ?A using L [rule_format, of 0] by simp
    moreover have ?B
    proof (intro allI impI)
      fix k assume "k \<le> length cs"
      then show "ms r ((pre @ [c]) @ take k cs, drop k cs, Map.empty) = []"
        using L [rule_format, of "Suc k"] by simp
    qed
    ultimately show "?A \<and> ?B" ..
  next
    assume AB: "?A \<and> ?B"
    show ?L
    proof (intro allI impI)
      fix k assume k: "k \<le> length (c # cs)"
      show "ms r (pre @ take k (c # cs), drop k (c # cs), Map.empty) = []"
      proof (cases k)
        case 0
        then show ?thesis using AB by simp
      next
        case (Suc j)
        then show ?thesis using AB k by simp
      qed
    qed
  qed
  then show ?case
    using Cons.IH [of "pre @ [c]"] by (simp split: list.splits)
qed

lemma test_iff:
  "test r s \<longleftrightarrow> (\<exists>k\<le>length s. ms r (take k s, drop k s, Map.empty) \<noteq> [])"
  using exec_from_None [of r "[]" s] by (auto simp: test_def exec_def)

lemma endsWith_iff: "endsWith s p \<longleftrightarrow> (\<exists>k\<le>length s. drop k s = p)"
proof
  assume "endsWith s p"
  then show "\<exists>k\<le>length s. drop k s = p"
    by (auto simp: endsWith_def intro!: exI [of _ "length s - length p"])
next
  assume "\<exists>k\<le>length s. drop k s = p"
  then obtain k where k: "k \<le> length s" "drop k s = p" by blast
  then have "length p = length s - k" by auto
  with k show "endsWith s p" by (auto simp: endsWith_def)
qed

lemma endsWith_append: "endsWith s (a @ b) \<Longrightarrow> endsWith s b"
proof -
  assume h: "endsWith s (a @ b)"
  then have len: "length a + length b \<le> length s"
    and d: "drop (length s - (length a + length b)) s = a @ b"
    by (simp_all add: endsWith_def)
  have "drop (length a) (drop (length s - (length a + length b)) s) = b"
    by (simp only: d) simp
  moreover have "length a + (length s - (length a + length b)) = length s - length b"
    using len by arith
  ultimately have "drop (length s - length b) s = b"
    by (simp add: add.commute)
  with len show ?thesis by (simp add: endsWith_def)
qed

lemma endsWith_last: "endsWith s p \<Longrightarrow> p \<noteq> [] \<Longrightarrow> last s = last p"
proof -
  assume h: "endsWith s p" and ne: "p \<noteq> []"
  then have d: "drop (length s - length p) s = p" and len: "length p \<le> length s"
    by (simp_all add: endsWith_def)
  have "length s - length p < length s" using ne len by (cases p) auto
  then have "last (drop (length s - length p) s) = last s" by (rule last_drop)
  with d show ?thesis by simp
qed

lemma take_drop_whole: "take (length w) rest = w \<and> drop (length w) rest = [] \<longleftrightarrow> rest = w"
proof
  assume h: "take (length w) rest = w \<and> drop (length w) rest = []"
  have "rest = take (length w) rest @ drop (length w) rest" by simp
  with h show "rest = w" by simp
qed auto

lemma ms_Eol_nonempty: "ms Eol m \<noteq> [] \<longleftrightarrow> fst (snd m) = []"
  by (cases m) auto

lemma ms_Seq_Eol:
  "ms (Seq r Eol) st \<noteq> [] \<longleftrightarrow> (\<exists>m \<in> set (ms r st). fst (snd m) = [])"
  by (simp add: ms_Eol_nonempty)

lemma ms_Group_end:
  "(\<exists>m \<in> set (ms (Group n r) st). fst (snd m) = []) \<longleftrightarrow> (\<exists>m \<in> set (ms r st). fst (snd m) = [])"
  by (cases st) (auto simp: split_beta)

lemma ms_Alt_end:
  "(\<exists>m \<in> set (ms (Alt r1 r2) st). P m) \<longleftrightarrow> (\<exists>m \<in> set (ms r1 st). P m) \<or> (\<exists>m \<in> set (ms r2 st). P m)"
  by auto

lemma ms_Lit_end:
  "(\<exists>m \<in> set (ms (Lit w) (pre, rest, caps)). fst (snd m) = []) \<longleftrightarrow> rest = w"
  using take_drop_whole [of w rest] by (auto simp: ms_Lit)

lemma ms_reasoningRe:
  "ms reasoningRe (pre, rest, caps) \<noteq> [] \<longleftrightarrow>
     rest = js ''-thinking'' \<or> rest = js ''-high'' \<or> rest = js ''-xhigh'' \<or> rest = js ''-max-high''"
  unfolding reasoningRe_def ms_Seq_Eol ms_Group_end ms_Alt_end ms_Lit_end ..

lemma inferReasoning_iff:
  "inferReasoning i \<longleftrightarrow>
     endsWith i (js ''-thinking'') \<or> endsWith i (js ''-high'') \<or> endsWith i (js ''-xhigh'')
     \<or> endsWith i (js ''-max-high'')"
  unfolding inferReasoning_def test_iff ms_reasoningRe endsWith_iff by blast

lemma trim_eq_Nil: "trim s = [] \<longleftrightarrow> (\<forall>c\<in>set s. isSpace c)"
proof -
  have "trim s = [] \<longleftrightarrow> (\<forall>c\<in>set (dropWhile isSpace s). isSpace c)"
    by (simp add: trim_def)
  also have "\<dots> \<longleftrightarrow> dropWhile isSpace s = []"
  proof
    assume a: "\<forall>c\<in>set (dropWhile isSpace s). isSpace c"
    show "dropWhile isSpace s = []"
    proof (rule ccontr)
      assume ne: "dropWhile isSpace s \<noteq> []"
      then have "\<not> isSpace (hd (dropWhile isSpace s))" by (rule hd_dropWhile)
      moreover have "hd (dropWhile isSpace s) \<in> set (dropWhile isSpace s)" using ne by simp
      ultimately show False using a by blast
    qed
  next
    assume "dropWhile isSpace s = []"
    then show "\<forall>c\<in>set (dropWhile isSpace s). isSpace c" by (simp only: list.set ball_empty)
  qed
  also have "\<dots> \<longleftrightarrow> (\<forall>c\<in>set s. isSpace c)"
    by simp
  finally show ?thesis .
qed

lemma blockInv_processFragment: "blockInv s \<Longrightarrow> blockInv (processFragment frag s)"
  by (simp add: blockInv_def processFragment_def Let_def)

lemma processFragment_open: "textBlockOpen (processFragment frag s)"
  by (simp add: processFragment_def Let_def)

lemma assistantBlocks_step:
  assumes "blockInv s" "block_type b = js ''text''" "trim (block_text b) \<noteq> []"
  shows "assistantBlocks (b # bs) s = assistantBlocks bs (processFragment (block_text b) s)"
  using assms by (simp add: blockInv_def processFragment_def Let_def)

lemma assistantBlocks_fragments:
  "blockInv s \<Longrightarrow>
   assistantBlocks blocks s = Inr (foldl (\<lambda>s f. processFragment f s) s (fragments blocks))"
proof (induction blocks arbitrary: s)
  case Nil
  then show ?case by (simp add: fragments_def)
next
  case (Cons b bs)
  show ?case
  proof (cases "block_type b = js ''text'' \<and> trim (block_text b) \<noteq> []")
    case True
    then have "assistantBlocks (b # bs) s = assistantBlocks bs (processFragment (block_text b) s)"
      using assistantBlocks_step [OF Cons.prems] by blast
    also have "\<dots> = Inr (foldl (\<lambda>s f. processFragment f s) (processFragment (block_text b) s) (fragments bs))"
      by (rule Cons.IH) (rule blockInv_processFragment [OF Cons.prems])
    finally show ?thesis using True by (simp add: fragments_def)
  next
    case False
    then have "assistantBlocks (b # bs) s = assistantBlocks bs s" by auto
    then show ?thesis using False Cons.IH [OF Cons.prems] by (auto simp: fragments_def)
  qed
qed









lemma toolCall_started:
  assumes "blockInv s" "cliKey \<noteq> []"
  shows "toolCall stringify (js ''started'') ((cliKey, args) # others) s =
           Inr (processFragment
                  (toolMarker (toPiToolName cliKey)
                     (case args of None \<Rightarrow> js ''{}'' | Some a \<Rightarrow> stringify a)) s)"
  using assms by (simp add: toolCall_def blockInv_def processFragment_def Let_def)

lemma blockInv_foldl:
  "blockInv s \<Longrightarrow> blockInv (foldl (\<lambda>s f. processFragment f s) s fs)"
  by (induction fs arbitrary: s) (simp_all add: blockInv_processFragment)

lemma toolCall_blockInv:
  assumes "blockInv s"
  shows "\<exists>s'. toolCall stringify subtype tc s = Inr s' \<and> blockInv s'"
proof (cases tc)
  case Nil
  then show ?thesis using assms by (simp add: toolCall_def)
next
  case (Cons e others)
  obtain cliKey args where e: "e = (cliKey, args)" by (cases e)
  show ?thesis
  proof (cases "cliKey \<noteq> [] \<and> subtype = js ''started''")
    case True
    then show ?thesis
      using toolCall_started [OF assms, of cliKey stringify args others]
        blockInv_processFragment [OF assms] Cons e by simp
  next
    case False
    then have "toolCall stringify subtype tc s = Inr s"
      using Cons e by (auto simp: toolCall_def Let_def)
    then show ?thesis using assms by simp
  qed
qed

lemma onEvent_blockInv:
  assumes "blockInv s"
  shows "\<exists>s'. onEvent stringify event s = Inr s' \<and> blockInv s'"
proof (cases event)
  case (CursorAssistantEvent blocks)
  then show ?thesis
    using assistantBlocks_fragments [OF assms, of blocks] blockInv_foldl [OF assms]
    by (simp add: onEvent_def)
next
  case (CursorToolCallEvent subtype tc)
  then show ?thesis
    using toolCall_blockInv [OF assms, of stringify subtype tc] by (simp add: onEvent_def)
qed (use assms in \<open>simp_all add: onEvent_def\<close>)

lemma step_blockInv:
  assumes "blockInv s"
  shows "\<exists>s'. step parse stringify s e = Inr s' \<and> blockInv s'"
proof (cases e)
  case (Line line)
  show ?thesis
  proof (cases "parseLine parse line")
    case None
    then show ?thesis using assms Line by (simp add: onLine_def)
  next
    case (Some event)
    then show ?thesis
      using onEvent_blockInv [OF assms, of stringify event] Line by (simp add: onLine_def)
  qed
next
  case (Close code)
  then show ?thesis using assms by (simp add: onClose_def blockInv_def Let_def)
qed (use assms in \<open>simp_all add: blockInv_def onAbort_def onError_def\<close>)

lemma run_blockInv:
  "blockInv s \<Longrightarrow> \<exists>s'. run parse stringify s evs = Inr s' \<and> blockInv s'"
proof (induction evs arbitrary: s)
  case Nil
  then show ?case by simp
next
  case (Cons e es)
  from step_blockInv [OF Cons.prems, of parse stringify e]
  obtain s1 where s1: "step parse stringify s e = Inr s1" "blockInv s1" by blast
  from Cons.IH [OF s1(2)] s1(1) show ?case by simp
qed

lemma blockInv_initial: "blockInv (initial signal)"
  by (simp add: blockInv_def initial_def)

lemma streamCursorCli_total:
  "\<exists>s. streamCursorCli parse stringify signal evs = Inr s \<and> blockInv s"
  unfolding streamCursorCli_def by (rule run_blockInv [OF blockInv_initial])

lemma reachable_blockInv:
  "streamCursorCli parse stringify signal evs = Inr s \<Longrightarrow> blockInv s"
  using streamCursorCli_total [of parse stringify signal evs] by auto

lemma parseModelLine_reasoning:
  "parseModelLine line = Some d \<Longrightarrow> STATIC_MODELS_MAP (id' d) = None \<Longrightarrow>
   reasoning d = inferReasoning (id' d)"
  by (auto simp: parseModelLine_def Let_def split: if_splits option.splits)

lemma parse_gpt_9_max:
  "parseModelLine (js ''gpt-9-max - GPT 9 Max'') =
     Some \<lparr>id' = js ''gpt-9-max'', name = js ''GPT 9 Max'', reasoning = False,
           contextWindow = 200000, maxTokens = 32768\<rparr>"
  by (simp add: parseModelLine_def trim_def startsWith_def chr_defs re_defs
        STATIC_MODELS_MAP_def STATIC_MODELS_def inferReasoning_def)

lemma gpt_9_max_unknown: "STATIC_MODELS_MAP (js ''gpt-9-max'') = None"
  by (simp add: STATIC_MODELS_MAP_def STATIC_MODELS_def js_eq_iff)

text \<open>
  C10. A model definition that the parser builds for an identifier that the static table
  does not have is a reasoning model exactly when the identifier ends with
  \<open>-thinking\<close>, \<open>-high\<close> or \<open>-xhigh\<close> (the pattern's fourth suffix \<open>-max-high\<close>
  ends with \<open>-high\<close>); an identifier that ends with \<open>-max\<close> and not with \<open>-high\<close>
  is not one.
\<close>

theorem inferred_reasoning_suffixes:
  assumes "parseModelLine line = Some d" and "STATIC_MODELS_MAP (id' d) = None"
  shows "(reasoning d \<longleftrightarrow>
            endsWith (id' d) (js ''-thinking'') \<or> endsWith (id' d) (js ''-high'')
            \<or> endsWith (id' d) (js ''-xhigh''))
         \<and> (endsWith (id' d) (js ''-max'') \<and> \<not> endsWith (id' d) (js ''-high'')
              \<longrightarrow> \<not> reasoning d)"
proof -
  let ?i = "id' d"
  have max_high: "endsWith ?i (js ''-max-high'') \<Longrightarrow> endsWith ?i (js ''-high'')"
    using endsWith_append [of ?i "js ''-max''" "js ''-high''"] by (simp add: js_def)
  have r: "reasoning d \<longleftrightarrow>
             endsWith ?i (js ''-thinking'') \<or> endsWith ?i (js ''-high'')
             \<or> endsWith ?i (js ''-xhigh'')"
    using parseModelLine_reasoning [OF assms] max_high
    by (auto simp: inferReasoning_iff)
  have "\<not> reasoning d" if m: "endsWith ?i (js ''-max'')" and h: "\<not> endsWith ?i (js ''-high'')"
  proof -
    have l: "last ?i = jc CHR ''x''"
      using endsWith_last [OF m] by (simp add: js_def)
    have "\<not> endsWith ?i (js ''-thinking'')"
      using endsWith_last [of ?i "js ''-thinking''"] l by (auto simp: js_def jc_eq_iff)
    moreover have "\<not> endsWith ?i (js ''-xhigh'')"
      using endsWith_last [of ?i "js ''-xhigh''"] l by (auto simp: js_def jc_eq_iff)
    ultimately show ?thesis using r h by simp
  qed
  with r show ?thesis by blast
qed

theorem inferred_reasoning_suffixes_witness:
  "parseModelLine (js ''gpt-9-max - GPT 9 Max'') =
     Some \<lparr>id' = js ''gpt-9-max'', name = js ''GPT 9 Max'', reasoning = False,
           contextWindow = 200000, maxTokens = 32768\<rparr>
   \<and> STATIC_MODELS_MAP (js ''gpt-9-max'') = None
   \<and> endsWith (js ''gpt-9-max'') (js ''-max'')
   \<and> \<not> endsWith (js ''gpt-9-max'') (js ''-high'')
   \<and> \<not> endsWith (js ''gpt-9-max'') (js ''-thinking'')
   \<and> \<not> endsWith (js ''gpt-9-max'') (js ''-xhigh'')"
  using inferred_reasoning_suffixes [of "js ''gpt-9-max - GPT 9 Max''"
      "\<lparr>id' = js ''gpt-9-max'', name = js ''GPT 9 Max'', reasoning = False,
        contextWindow = 200000, maxTokens = 32768\<rparr>"]
    parse_gpt_9_max gpt_9_max_unknown
  by (simp add: endsWith_def js_def jc_eq_iff)

text \<open>
  C9. A \<open>tool_call\<close> event whose \<open>tool_call\<close> object has no keys changes nothing: the
  state after the event, with the output message and the calls on the stream, is the
  state before it.
\<close>

theorem tool_call_without_keys_is_ignored:
  "onEvent stringify (CursorToolCallEvent subtype []) s = Inr s"
  by (simp add: onEvent_def toolCall_def)

theorem tool_call_without_keys_is_ignored_witness:
  "onEvent (\<lambda>j :: unit. []) (CursorToolCallEvent (js ''started'') []) (initial None)
     = Inr (initial None)"
  using tool_call_without_keys_is_ignored [of "\<lambda>j :: unit. []" "js ''started''" "initial None"]
  by simp




lemma bracket_snoc:
  "bracket (cs @ [c]) = (case bracket cs of None \<Rightarrow> None | Some b \<Rightarrow> brStep b c)"
  by (simp add: bracket_def)

lemma bracket_snoc2:
  "bracket (cs @ [c, d]) =
     (case bracket cs of None \<Rightarrow> None
      | Some b \<Rightarrow> (case brStep b c of None \<Rightarrow> None | Some b' \<Rightarrow> brStep b' d))"
  by (simp add: bracket_def split: option.splits)

lemma bracketInv_processFragment:
  "bracketInv s \<Longrightarrow> bracketInv (processFragment frag s)"
  by (auto simp: bracketInv_def blockInv_def processFragment_def Let_def bracket_snoc bracket_snoc2)

lemma bracketInv_foldl:
  "bracketInv s \<Longrightarrow> bracketInv (foldl (\<lambda>s f. processFragment f s) s fs)"
  by (induction fs arbitrary: s) (simp_all add: bracketInv_processFragment)

lemma foldl_processFragment_open:
  "textBlockOpen (foldl (\<lambda>s f. processFragment f s) s fs) \<longleftrightarrow> textBlockOpen s \<or> fs \<noteq> []"
proof (induction fs arbitrary: s)
  case Nil
  then show ?case by simp
next
  case (Cons f fs)
  then show ?case by (simp add: processFragment_open)
qed

lemma onEvent_cases:
  assumes "blockInv s"
  shows "\<exists>fs. onEvent stringify event s = Inr (foldl (\<lambda>s f. processFragment f s) s fs)"
proof (cases event)
  case (CursorAssistantEvent blocks)
  then show ?thesis
    using assistantBlocks_fragments [OF assms, of blocks] by (auto simp: onEvent_def)
next
  case (CursorToolCallEvent subtype tc)
  show ?thesis
  proof (cases tc)
    case Nil
    then have "onEvent stringify event s = Inr (foldl (\<lambda>s f. processFragment f s) s [])"
      using CursorToolCallEvent by (simp add: onEvent_def toolCall_def)
    then show ?thesis by blast
  next
    case (Cons e others)
    obtain cliKey args where e: "e = (cliKey, args)" by (cases e)
    show ?thesis
    proof (cases "cliKey \<noteq> [] \<and> subtype = js ''started''")
      case True
      then have "onEvent stringify event s =
          Inr (foldl (\<lambda>s f. processFragment f s) s
            [toolMarker (toPiToolName cliKey) (case args of None \<Rightarrow> js ''{}'' | Some a \<Rightarrow> stringify a)])"
        using toolCall_started [OF assms, of cliKey stringify args others] Cons e CursorToolCallEvent
        by (simp add: onEvent_def)
      then show ?thesis by blast
    next
      case False
      then have "onEvent stringify event s = Inr (foldl (\<lambda>s f. processFragment f s) s [])"
        using Cons e CursorToolCallEvent by (auto simp: onEvent_def toolCall_def Let_def)
      then show ?thesis by blast
    qed
  qed
next
  case (CursorResultEvent x)
  then have "onEvent stringify event s = Inr (foldl (\<lambda>s f. processFragment f s) s [])"
    by (simp add: onEvent_def)
  then show ?thesis by blast
next
  case CursorOtherEvent
  then have "onEvent stringify event s = Inr (foldl (\<lambda>s f. processFragment f s) s [])"
    by (simp add: onEvent_def)
  then show ?thesis by blast
qed

lemma onLine_cases:
  assumes "blockInv s"
  shows "\<exists>fs. onLine parse stringify line s = Inr (foldl (\<lambda>s f. processFragment f s) s fs)"
proof (cases "parseLine parse line")
  case None
  then have "onLine parse stringify line s = Inr (foldl (\<lambda>s f. processFragment f s) s [])"
    by (simp add: onLine_def)
  then show ?thesis by blast
next
  case (Some event)
  then show ?thesis using onEvent_cases [OF assms, of stringify event] by (simp add: onLine_def)
qed

lemma run_append:
  "run parse stringify s (es @ fs) =
     (case run parse stringify s es of Inl e \<Rightarrow> Inl e | Inr s' \<Rightarrow> run parse stringify s' fs)"
  by (induction es arbitrary: s) (simp_all split: sum.splits)

lemma run_snoc:
  "run parse stringify s es = Inr s' \<Longrightarrow>
   run parse stringify s (es @ [e]) = step parse stringify s' e"
  by (simp add: run_append split: sum.splits)

lemma bracketInv_blockInv: "bracketInv s \<Longrightarrow> blockInv s"
  by (simp add: bracketInv_def)

lemma bracketInv_onClose: "bracketInv s \<Longrightarrow> bracketInv (onClose code s)"
  by (auto simp: bracketInv_def blockInv_def onClose_def Let_def bracket_snoc bracket_snoc2)

lemma onClose_closed: "\<not> textBlockOpen (onClose code s)"
  by (simp add: onClose_def Let_def)

lemma bracketInv_onAbort: "bracketInv s \<Longrightarrow> bracketInv (onAbort s)"
  by (simp add: bracketInv_def blockInv_def onAbort_def)

lemma bracketInv_onError:
  "bracketInv s \<Longrightarrow> \<not> textBlockOpen s \<Longrightarrow> bracketInv (onError m s)"
  by (simp add: bracketInv_def blockInv_def onError_def bracket_snoc2)

lemma bracketInv_stderr:
  "bracketInv s \<Longrightarrow> bracketInv (s\<lparr>stderrChunks := stderrChunks s @ [chunk]\<rparr>)"
  by (simp add: bracketInv_def blockInv_def)

lemma run_bracketInv:
  assumes "bracketInv s" "textBlockOpen s \<longrightarrow> seen" "errorsBeforeOutput seen evs"
  shows "\<exists>s'. run parse stringify s evs = Inr s' \<and> bracketInv s'"
  using assms
proof (induction evs arbitrary: s seen)
  case Nil
  then show ?case by simp
next
  case (Cons e es)
  show ?case
  proof (cases e)
    case (Line line)
    from onLine_cases [OF bracketInv_blockInv [OF Cons.prems(1)], of parse stringify line]
    obtain fs where fs: "onLine parse stringify line s = Inr (foldl (\<lambda>s f. processFragment f s) s fs)"
      by blast
    have "bracketInv (foldl (\<lambda>s f. processFragment f s) s fs)"
      by (rule bracketInv_foldl [OF Cons.prems(1)])
    from Cons.IH [OF this, of True] Cons.prems(3) Line fs show ?thesis by simp
  next
    case (StderrChunk chunk)
    from Cons.IH [OF bracketInv_stderr [OF Cons.prems(1), of chunk], of seen] Cons.prems StderrChunk
    show ?thesis by simp
  next
    case Abort
    have "textBlockOpen (onAbort s) = textBlockOpen s" by (simp add: onAbort_def)
    with Cons.IH [OF bracketInv_onAbort [OF Cons.prems(1)], of seen] Cons.prems Abort
    show ?thesis by simp
  next
    case (Close code)
    from Cons.IH [OF bracketInv_onClose [OF Cons.prems(1), of code], of seen] Cons.prems Close
      onClose_closed [of code s]
    show ?thesis by simp
  next
    case (SpawnError m)
    have "errorsBeforeOutput seen (SpawnError m # es)"
      using Cons.prems(3) SpawnError by (simp only:)
    then have both: "\<not> seen \<and> errorsBeforeOutput seen es"
      unfolding errorsBeforeOutput.simps .
    then have ns: "\<not> seen" and rest: "errorsBeforeOutput seen es"
      by blast+
    then have closed: "\<not> textBlockOpen s" using Cons.prems(2) by blast
    have "textBlockOpen (onError m s) = textBlockOpen s" by (simp add: onError_def)
    with Cons.IH [OF bracketInv_onError [OF Cons.prems(1) closed, of m], of seen] closed rest SpawnError
    show ?thesis by simp
  qed
qed

lemma bracketInv_initial: "bracketInv (initial signal)"
  by (simp add: bracketInv_def blockInv_def initial_def bracket_def)

lemma run_last_Close:
  assumes "run parse stringify s (evs @ [Close code]) = Inr s'"
  shows "\<not> textBlockOpen s'"
proof -
  from assms obtain s1 where "run parse stringify s evs = Inr s1"
    by (auto simp: run_append split: sum.splits)
  with assms have "s' = onClose code s1" by (simp add: run_snoc)
  then show ?thesis by (simp add: onClose_closed)
qed

text \<open>
  When the \<open>error\<close> event of the handle comes only before any line of output, an
  invocation whose lines decode to events of the declared shapes makes its calls on the
  stream in the discipline of text blocks, at every point: a block is opened only when
  none is open, \<open>text_end\<close> closes the open block with its index, and \<open>done\<close> or
  \<open>error\<close> is pushed only when every opened block has been closed. The open block, if
  any, is the last content block; after the \<open>close\<close> event no block is open.
\<close>

lemma text_blocks_well_bracketed:
  assumes "errorsBeforeOutput False evs"
  shows "\<exists>s. streamCursorCli parse stringify signal evs = Inr s
           \<and> bracket (calls s) =
               Some (if textBlockOpen s then Some (length (content (output' s)) - 1) else None)
           \<and> (case rev evs of Close code # _ \<Rightarrow> bracket (calls s) = Some None | _ \<Rightarrow> True)"
proof -
  from run_bracketInv [OF bracketInv_initial _ assms, of signal parse stringify]
  obtain s where s: "run parse stringify (initial signal) evs = Inr s" "bracketInv s"
    by (auto simp: initial_def)
  have "bracket (calls s) = Some None" if "rev evs = Close code # r" for code r
  proof -
    from that have "evs = rev r @ [Close code]" by simp
    with s(1) have "\<not> textBlockOpen s" using run_last_Close by metis
    with s(2) show ?thesis by (simp add: bracketInv_def)
  qed
  then have "case rev evs of Close code # _ \<Rightarrow> bracket (calls s) = Some None | _ \<Rightarrow> True"
    by (auto split: list.splits child_event.splits)
  with s show ?thesis by (auto simp: streamCursorCli_def bracketInv_def)
qed

lemma processFragment_fields:
  "stopReason (output' (processFragment f s)) = stopReason (output' s)"
  "errorMessage (output' (processFragment f s)) = errorMessage (output' s)"
  "stderrChunks (processFragment f s) = stderrChunks s"
  "signalAborted (processFragment f s) = signalAborted s"
  "accumulatedText (processFragment f s) = accumulatedText s @ f"
  "filter isFinal (calls (processFragment f s)) = filter isFinal (calls s)"
  "filter isTextEnd (calls (processFragment f s)) = filter isTextEnd (calls s)"
  by (simp_all add: processFragment_def Let_def isFinal_def)

lemma foldl_processFragment_fields:
  "stopReason (output' (foldl (\<lambda>s f. processFragment f s) s fs)) = stopReason (output' s)"
  "errorMessage (output' (foldl (\<lambda>s f. processFragment f s) s fs)) = errorMessage (output' s)"
  "stderrChunks (foldl (\<lambda>s f. processFragment f s) s fs) = stderrChunks s"
  "signalAborted (foldl (\<lambda>s f. processFragment f s) s fs) = signalAborted s"
  "accumulatedText (foldl (\<lambda>s f. processFragment f s) s fs) = accumulatedText s @ concat fs"
  "filter isFinal (calls (foldl (\<lambda>s f. processFragment f s) s fs)) = filter isFinal (calls s)"
  "filter isTextEnd (calls (foldl (\<lambda>s f. processFragment f s) s fs)) = filter isTextEnd (calls s)"
  by (induction fs arbitrary: s) (simp_all add: processFragment_fields)

lemma processFragment_length:
  "blockInv s \<Longrightarrow>
   length (content (output' (processFragment f s))) =
     (if textBlockOpen s then length (content (output' s)) else Suc (length (content (output' s))))"
  by (simp add: processFragment_def Let_def)

lemma foldl_processFragment_length:
  "blockInv s \<Longrightarrow>
   length (content (output' (foldl (\<lambda>s f. processFragment f s) s fs))) =
     (if textBlockOpen s \<or> fs = [] then length (content (output' s))
      else Suc (length (content (output' s))))"
proof (induction fs arbitrary: s)
  case Nil
  then show ?case by simp
next
  case (Cons f fs)
  have "blockInv (processFragment f s)" by (rule blockInv_processFragment [OF Cons.prems])
  from Cons.IH [OF this] show ?case
    by (simp add: processFragment_open processFragment_length [OF Cons.prems])
qed

lemma streamingInv_initial: "streamingInv (initial signal)"
  by (simp add: streamingInv_def blockInv_def initial_def isFinal_def)

lemma streamingInv_foldl:
  "streamingInv s \<Longrightarrow> streamingInv (foldl (\<lambda>s f. processFragment f s) s fs)"
  by (simp add: streamingInv_def foldl_processFragment_fields blockInv_foldl)

lemma run_streaming:
  assumes "list_all streaming evs" "streamingInv s"
  shows "\<exists>s'. run parse stringify s evs = Inr s' \<and> streamingInv s'
           \<and> signalAborted s' = (signalAborted s \<or> Abort \<in> set evs)
           \<and> stderrChunks s' = stderrChunks s @ stderrOf evs"
  using assms
proof (induction evs arbitrary: s)
  case Nil
  then show ?case by simp
next
  case (Cons e es)
  have rest: "list_all streaming es" using Cons.prems(1) by simp
  have inv: "blockInv s" using Cons.prems(2) by (simp add: streamingInv_def)
  show ?case
  proof (cases e)
    case (Line line)
    from onLine_cases [OF inv, of parse stringify line]
    obtain fs where fs: "onLine parse stringify line s = Inr (foldl (\<lambda>s f. processFragment f s) s fs)"
      by blast
    from Cons.IH [OF rest streamingInv_foldl [OF Cons.prems(2), of fs]] fs Line
    show ?thesis by (simp add: foldl_processFragment_fields)
  next
    case (StderrChunk chunk)
    have "streamingInv (s\<lparr>stderrChunks := stderrChunks s @ [chunk]\<rparr>)"
      using Cons.prems(2) by (simp add: streamingInv_def blockInv_def)
    from Cons.IH [OF rest this] StderrChunk show ?thesis by simp
  next
    case Abort
    have "streamingInv (onAbort s)"
      using Cons.prems(2) by (simp add: streamingInv_def blockInv_def onAbort_def)
    from Cons.IH [OF rest this] Abort show ?thesis by (auto simp: onAbort_def)
  next
    case (Close code)
    then show ?thesis using Cons.prems(1) by simp
  next
    case (SpawnError m)
    then show ?thesis using Cons.prems(1) by simp
  qed
qed

lemma onClose_final:
  assumes "streamingInv s"
  shows "filter isFinal (calls (onClose code s)) =
           (if signalAborted s then [Push (EvError Aborted), End]
            else if code \<noteq> Some 0 \<and> accumulatedText s = [] then [Push (EvError Error), End]
            else [Push (EvDone Stop), End])"
    and "stopReason (output' (onClose code s)) =
           (if signalAborted s then Aborted
            else if code \<noteq> Some 0 \<and> accumulatedText s = [] then Error
            else Stop)"
    and "\<not> signalAborted s \<Longrightarrow> code \<noteq> Some 0 \<Longrightarrow> accumulatedText s = [] \<Longrightarrow>
         errorMessage (output' (onClose code s)) =
           Some (if trim (concat (stderrChunks s)) \<noteq> [] then trim (concat (stderrChunks s))
                 else js ''Cursor CLI exited with code '' @ showCode code)"
    and "filter isTextEnd (calls (onClose code s)) =
           (if textBlockOpen s
            then [Push (EvTextEnd (length (content (output' s)) - 1) (accumulatedText s))]
            else [])"
  using assms by (simp_all add: streamingInv_def onClose_def Let_def isFinal_def)

lemmas stream_defs = streamCursorCli_def initial_def onLine_def onEvent_def parseLine_def
  onClose_def onError_def onAbort_def toolCall_def decodeAs_def Let_def

lemma trim_scenarioA_line: "trim scenarioA_line = scenarioA_line"
  by (simp add: scenarioA_line_def trim_def chr_defs)

lemma scenarioA_run:
  "streamCursorCli scenarioA_parse (\<lambda>a. []) None [Line scenarioA_line, Close (Some 0)] =
     Inr \<lparr>output' = \<lparr>content = [TextContent (js ''Hi'')], stopReason = Stop, errorMessage = None\<rparr>,
          textBlockOpen = False, accumulatedText = js ''Hi'', stderrChunks = [],
          signalAborted = False, abortListener = False, kills = 0,
          calls = [Push EvStart, Push (EvTextStart 0), Push (EvTextDelta 0 (js ''Hi'')),
                   Push (EvTextEnd 0 (js ''Hi'')), Push (EvDone Stop), End]\<rparr>"
proof -
  have ne: "scenarioA_line \<noteq> []" by (simp add: scenarioA_line_def js_def)
  have t: "trim (js ''Hi'') \<noteq> []" by (simp add: trim_def chr_defs)
  show ?thesis
    using ne t by (simp add: stream_defs scenarioA_parse_def trim_scenarioA_line)
qed

lemma text_blocks_well_bracketed_example:
  "errorsBeforeOutput False [Line scenarioA_line, Close (Some 0)]
   \<and> (\<exists>s. streamCursorCli scenarioA_parse (\<lambda>a. []) None [Line scenarioA_line, Close (Some 0)] = Inr s
          \<and> calls s = [Push EvStart, Push (EvTextStart 0), Push (EvTextDelta 0 (js ''Hi'')),
                        Push (EvTextEnd 0 (js ''Hi'')), Push (EvDone Stop), End]
          \<and> bracket (calls s) = Some None)"
  using text_blocks_well_bracketed [of "[Line scenarioA_line, Close (Some 0)]"
      scenarioA_parse "\<lambda>a. []" None]
  by (simp add: scenarioA_run)

text \<open>
  C2, as amended. After any sequence of lines, diagnostic chunks and cancellations, the
  \<open>close\<close> event decides the terminal state in this order: \<open>aborted\<close> when the signal
  has fired; else \<open>error\<close> when the exit code is not 0 and no text was accumulated, the
  message being the captured diagnostic output with surrounding white space trimmed, or
  the generic text when the trimmed output is empty; else \<open>stop\<close>. One terminal event
  and one \<open>end\<close> are the only final calls of the invocation.
\<close>

theorem finalization_priority:
  assumes "list_all streaming evs"
  shows "\<exists>s s'. streamCursorCli parse stringify signal evs = Inr s
           \<and> streamCursorCli parse stringify signal (evs @ [Close code]) = Inr s'
           \<and> signalAborted s = (signal = Some True \<or> Abort \<in> set evs)
           \<and> stderrChunks s = stderrOf evs
           \<and> (if signalAborted s
                then stopReason (output' s') = Aborted
                     \<and> filter isFinal (calls s') = [Push (EvError Aborted), End]
                else if code \<noteq> Some 0 \<and> accumulatedText s = []
                then stopReason (output' s') = Error
                     \<and> errorMessage (output' s') =
                         Some (if trim (concat (stderrOf evs)) \<noteq> []
                               then trim (concat (stderrOf evs))
                               else js ''Cursor CLI exited with code '' @ showCode code)
                     \<and> filter isFinal (calls s') = [Push (EvError Error), End]
                else stopReason (output' s') = Stop
                     \<and> filter isFinal (calls s') = [Push (EvDone Stop), End])"
proof -
  from run_streaming [OF assms streamingInv_initial, of parse stringify signal]
  obtain s where s: "run parse stringify (initial signal) evs = Inr s" "streamingInv s"
    "signalAborted s = (signalAborted (initial signal) \<or> Abort \<in> set evs)"
    "stderrChunks s = stderrChunks (initial signal) @ stderrOf evs"
    by blast
  have ab: "signalAborted s = (signal = Some True \<or> Abort \<in> set evs)"
    using s(3) by (simp add: initial_def)
  have ch: "stderrChunks s = stderrOf evs"
    using s(4) by (simp add: initial_def)
  have cl: "run parse stringify (initial signal) (evs @ [Close code]) = Inr (onClose code s)"
    using run_snoc [OF s(1), of "Close code"] by simp
  show ?thesis
    using s(1) cl ab ch onClose_final [OF s(2), of code]
    by (auto simp: streamCursorCli_def)
qed

theorem finalization_priority_witness:
  "list_all streaming [StderrChunk (js ''auth required'')]
   \<and> (\<exists>s'. streamCursorCli (decodeAs ([] :: (jsstring \<times> unit CursorStreamEvent option) list))
             (\<lambda>a. []) None ([StderrChunk (js ''auth required'')] @ [Close (Some 1)]) = Inr s'
          \<and> stopReason (output' s') = Error
          \<and> errorMessage (output' s') = Some (js ''auth required'')
          \<and> filter isFinal (calls s') = [Push (EvError Error), End])"
proof -
  have t: "trim (js ''auth required'') = js ''auth required''"
    by (simp add: trim_def chr_defs)
  have n: "js ''auth required'' \<noteq> []" by (simp add: js_def)
  have a: "streamCursorCli (decodeAs ([] :: (jsstring \<times> unit CursorStreamEvent option) list))
             (\<lambda>a. []) None [StderrChunk (js ''auth required'')]
           = Inr ((initial None)\<lparr>stderrChunks := [js ''auth required'']\<rparr>)"
    by (simp add: streamCursorCli_def initial_def)
  show ?thesis
    using finalization_priority [of "[StderrChunk (js ''auth required'')]"
        "decodeAs ([] :: (jsstring \<times> unit CursorStreamEvent option) list)" "\<lambda>a. []" None "Some 1"]
      a t n
    by (auto simp: initial_def)
qed

text \<open>
  The claim as it stands fails on diagnostic output that ends with a line break: the
  message is the text without it. Output of white space only is not empty, and the
  message is the generic one.
\<close>

theorem stderr_message_counterexample:
  "map_sum id (\<lambda>s. (stopReason (output' s), errorMessage (output' s), concat (stderrChunks s)))
     (streamCursorCli (decodeAs ([] :: (jsstring \<times> unit CursorStreamEvent option) list)) (\<lambda>a. []) None
        [StderrChunk (js ''oops\<newline>''), Close (Some 1)])
   = Inr (Error, Some (js ''oops''), js ''oops\<newline>'')
   \<and> js ''oops'' \<noteq> js ''oops\<newline>''
   \<and> map_sum id (\<lambda>s. (stopReason (output' s), errorMessage (output' s), concat (stderrChunks s)))
     (streamCursorCli (decodeAs ([] :: (jsstring \<times> unit CursorStreamEvent option) list)) (\<lambda>a. []) None
        [StderrChunk (js ''\<newline>''), Close (Some 1)])
   = Inr (Error, Some (js ''Cursor CLI exited with code 1''), js ''\<newline>'')
   \<and> js ''\<newline>'' \<noteq> []"
proof -
  have t1: "trim (js ''oops\<newline>'') = js ''oops''" by (simp add: trim_def chr_defs)
  have t2: "trim (js ''\<newline>'') = []" by (simp add: trim_def chr_defs)
  have n: "js ''oops'' \<noteq> []" "js ''\<newline>'' \<noteq> []" by (simp_all add: js_def)
  have c: "showCode (Some 1) = js ''1''" by (simp add: showCode_def showInt_def js_def jc_def)
  have j: "js ''Cursor CLI exited with code '' @ js ''1'' = js ''Cursor CLI exited with code 1''"
    by (simp add: js_def)
  show ?thesis
    using t1 t2 n c j by (simp add: stream_defs js_eq_iff)
qed

lemma processFragment_calls:
  "calls (processFragment f s) =
     calls s
     @ (if textBlockOpen s then [] else [Push (EvTextStart (length (content (output' s))))])
     @ [Push (EvTextDelta (if textBlockOpen s then length (content (output' s)) - 1
                           else length (content (output' s))) f)]"
  by (simp add: processFragment_def Let_def)

lemma foldl_processFragment_calls:
  "blockInv s \<Longrightarrow>
   calls (foldl (\<lambda>s f. processFragment f s) s fs) =
     calls s
     @ (if textBlockOpen s \<or> fs = [] then []
        else [Push (EvTextStart (length (content (output' s))))])
     @ map (\<lambda>f. Push (EvTextDelta (if textBlockOpen s then length (content (output' s)) - 1
                                   else length (content (output' s))) f)) fs"
proof (induction fs arbitrary: s)
  case Nil
  then show ?case by simp
next
  case (Cons f fs)
  have inv: "blockInv (processFragment f s)" by (rule blockInv_processFragment [OF Cons.prems])
  show ?case
    using Cons.IH [OF inv] Cons.prems
    by (simp add: processFragment_open processFragment_calls processFragment_length blockInv_def)
qed

lemma run_assistant_lines:
  assumes "list_all2 (\<lambda>l bs. parseLine parse l = Some (CursorAssistantEvent bs)) ls bss"
    and "blockInv s"
  shows "run parse stringify s (map Line ls) =
           Inr (foldl (\<lambda>s f. processFragment f s) s (concat (map fragments bss)))"
  using assms
proof (induction ls bss arbitrary: s rule: list_all2_induct)
  case Nil
  then show ?case by simp
next
  case (Cons l ls bs bss)
  have "onLine parse stringify l s = Inr (foldl (\<lambda>s f. processFragment f s) s (fragments bs))"
    using Cons.hyps(1) assistantBlocks_fragments [OF Cons.prems, of bs]
    by (simp add: onLine_def onEvent_def)
  moreover have "blockInv (foldl (\<lambda>s f. processFragment f s) s (fragments bs))"
    by (rule blockInv_foldl [OF Cons.prems])
  ultimately show ?case using Cons.IH by simp
qed

text \<open>
  C3, as amended. The fragments of an assistant event that are processed are the texts
  of its blocks of type \<open>text\<close> that are not empty and not white space only. In a
  state that an invocation reaches, the handler processes them in order: the first
  opens a block when none is open (\<open>text_start\<close> with the next content index), each is
  appended to the accumulated text, and each is pushed as a \<open>text_delta\<close> that carries
  the fragment itself. After lines that are all assistant events, the \<open>close\<close> event
  pushes one \<open>text_end\<close> whose content is the concatenation of the processed fragments
  in order, and none when there was no such fragment.
\<close>

theorem assistant_fragments_concatenated:
  assumes "streamCursorCli parse stringify signal evs = Inr s"
    and "list_all2 (\<lambda>l bs. parseLine parse l = Some (CursorAssistantEvent bs)) ls bss"
  shows "(\<exists>s'. onEvent stringify (CursorAssistantEvent blocks) s = Inr s'
            \<and> s' = foldl (\<lambda>s f. processFragment f s) s (fragments blocks)
            \<and> accumulatedText s' = accumulatedText s @ concat (fragments blocks)
            \<and> calls s' =
                calls s
                @ (if textBlockOpen s \<or> fragments blocks = [] then []
                   else [Push (EvTextStart (length (content (output' s))))])
                @ map (\<lambda>f. Push (EvTextDelta
                         (if textBlockOpen s then length (content (output' s)) - 1
                          else length (content (output' s))) f)) (fragments blocks))
         \<and> (\<exists>s'. streamCursorCli parse stringify signal (map Line ls @ [Close code]) = Inr s'
            \<and> filter isTextEnd (calls s') =
                (if concat (map fragments bss) = [] then []
                 else [Push (EvTextEnd 0 (concat (concat (map fragments bss))))]))"
proof -
  have inv: "blockInv s" using assms(1) by (rule reachable_blockInv)
  have a: "onEvent stringify (CursorAssistantEvent blocks) s =
             Inr (foldl (\<lambda>s f. processFragment f s) s (fragments blocks))"
    using assistantBlocks_fragments [OF inv, of blocks] by (simp add: onEvent_def)
  let ?F = "concat (map fragments bss)"
  let ?s1 = "foldl (\<lambda>s f. processFragment f s) (initial signal) ?F"
  have r: "run parse stringify (initial signal) (map Line ls) = Inr ?s1"
    by (rule run_assistant_lines [OF assms(2) blockInv_initial])
  have si: "streamingInv ?s1" by (rule streamingInv_foldl [OF streamingInv_initial])
  have op: "textBlockOpen ?s1 \<longleftrightarrow> ?F \<noteq> []"
    by (simp add: foldl_processFragment_open initial_def)
  have len: "?F \<noteq> [] \<Longrightarrow> length (content (output' ?s1)) = 1"
    using foldl_processFragment_length [OF blockInv_initial, of signal ?F]
    by (simp add: initial_def)
  have acc: "accumulatedText ?s1 = concat ?F"
    by (simp add: foldl_processFragment_fields initial_def)
  have cl: "run parse stringify (initial signal) (map Line ls @ [Close code]) = Inr (onClose code ?s1)"
    using run_snoc [OF r, of "Close code"] by simp
  have b: "filter isTextEnd (calls (onClose code ?s1)) =
             (if ?F = [] then [] else [Push (EvTextEnd 0 (concat ?F))])"
    using onClose_final(4) [OF si, of code] op len acc by simp
  show ?thesis
    using a b cl foldl_processFragment_calls [OF inv, of "fragments blocks"]
    by (simp add: streamCursorCli_def foldl_processFragment_fields)
qed

theorem assistant_fragments_concatenated_witness:
  "streamCursorCli scenarioA_parse (\<lambda>a. []) None [] = Inr (initial None)
   \<and> list_all2 (\<lambda>l bs. parseLine scenarioA_parse l = Some (CursorAssistantEvent bs))
        [scenarioA_line] [[CursorTextBlock (js ''text'') (js ''Hi'')]]
   \<and> fragments [CursorTextBlock (js ''text'') (js ''Hi'')] = [js ''Hi'']
   \<and> (\<exists>s'. onEvent (\<lambda>a :: unit. [])
               (CursorAssistantEvent [CursorTextBlock (js ''text'') (js ''Hi'')])
               (initial None) = Inr s'
          \<and> accumulatedText s' = js ''Hi''
          \<and> calls s' = [Push EvStart, Push (EvTextStart 0), Push (EvTextDelta 0 (js ''Hi''))])
   \<and> (\<exists>s'. streamCursorCli scenarioA_parse (\<lambda>a. []) None
               (map Line [scenarioA_line] @ [Close (Some 0)]) = Inr s'
          \<and> filter isTextEnd (calls s') = [Push (EvTextEnd 0 (js ''Hi''))])"
proof -
  have ne: "scenarioA_line \<noteq> []" by (simp add: scenarioA_line_def js_def)
  have t: "trim (js ''Hi'') \<noteq> []" by (simp add: trim_def chr_defs)
  have f: "fragments [CursorTextBlock (js ''text'') (js ''Hi'')] = [js ''Hi'']"
    using t by (simp add: fragments_def)
  have p: "list_all2 (\<lambda>l bs. parseLine scenarioA_parse l = Some (CursorAssistantEvent bs))
        [scenarioA_line] [[CursorTextBlock (js ''text'') (js ''Hi'')]]"
    using ne by (simp add: parseLine_def trim_scenarioA_line scenarioA_parse_def decodeAs_def)
  have r: "streamCursorCli scenarioA_parse (\<lambda>a. []) None [] = Inr (initial None)"
    by (simp add: streamCursorCli_def)
  have i: "accumulatedText (initial None) = []" "calls (initial None) = [Push EvStart]"
    "\<not> textBlockOpen (initial None)" "content (output' (initial None)) = []"
    by (simp_all add: initial_def)
  note th = assistant_fragments_concatenated [OF r p,
      of "[CursorTextBlock (js ''text'') (js ''Hi'')]" "Some 0"]
  have a: "\<exists>s'. onEvent (\<lambda>a :: unit. [])
               (CursorAssistantEvent [CursorTextBlock (js ''text'') (js ''Hi'')])
               (initial None) = Inr s'
          \<and> accumulatedText s' = js ''Hi''
          \<and> calls s' = [Push EvStart, Push (EvTextStart 0), Push (EvTextDelta 0 (js ''Hi''))]"
    using th f i by auto
  have b: "\<exists>s'. streamCursorCli scenarioA_parse (\<lambda>a. []) None
               (map Line [scenarioA_line] @ [Close (Some 0)]) = Inr s'
          \<and> filter isTextEnd (calls s') = [Push (EvTextEnd 0 (js ''Hi''))]"
    using th f i by auto
  from r p f a b show ?thesis by blast
qed

text \<open>
  The claim as it stands fails on a fragment of white space: it is not empty, it is
  skipped, and the content of \<open>text_end\<close> is not the concatenation of the fragments.
\<close>

theorem blank_fragment_counterexample:
  "map_sum id (\<lambda>s. calls (onClose (Some 0) s))
     (onEvent (\<lambda>a :: unit. [])
        (CursorAssistantEvent [CursorTextBlock (js ''text'') (js ''Hello''),
                               CursorTextBlock (js ''text'') (js '' ''),
                               CursorTextBlock (js ''text'') (js ''world'')])
        (initial None))
   = Inr [Push EvStart, Push (EvTextStart 0), Push (EvTextDelta 0 (js ''Hello'')),
          Push (EvTextDelta 0 (js ''world'')), Push (EvTextEnd 0 (js ''Helloworld'')),
          Push (EvDone Stop), End]
   \<and> js '' '' \<noteq> []
   \<and> js ''Helloworld'' \<noteq> js ''Hello'' @ js '' '' @ js ''world''"
proof -
  have t: "trim (js ''Hello'') \<noteq> []" "trim (js '' '') = []" "trim (js ''world'') \<noteq> []"
    by (simp_all add: trim_def chr_defs)
  have j: "js ''Hello'' @ js ''world'' = js ''Helloworld''" by (simp add: js_def)
  show ?thesis
    using t j by (simp add: stream_defs) (simp add: js_def)
qed

text \<open>
  C1. When the child cannot be spawned, Node emits \<open>error\<close> on the handle and then
  \<open>close\<close> with the negative error number as the code. Both handlers run: two terminal
  events are pushed and the stream is ended twice, and the message of the spawn failure
  is replaced by the generic one.
\<close>

theorem spawn_failure_two_terminal_events:
  "map_sum id (\<lambda>s. (calls s, stopReason (output' s), errorMessage (output' s)))
     (streamCursorCli (decodeAs ([] :: (jsstring \<times> unit CursorStreamEvent option) list)) (\<lambda>a. []) None
        [SpawnError (js ''spawn agent ENOENT''), Close (Some (- 2))])
   = Inr ([Push EvStart, Push (EvError Error), End, Push (EvError Error), End],
          Error, Some (js ''Cursor CLI exited with code -2''))"
proof -
  have c: "showCode (Some (- 2)) = js ''-2''" by (simp add: showCode_def showInt_def js_def jc_def)
  have j: "js ''Cursor CLI exited with code '' @ js ''-2'' = js ''Cursor CLI exited with code -2''"
    by (simp add: js_def)
  show ?thesis
    using c j by (simp add: stream_defs trim_def)
qed

theorem spawn_failure_two_terminal_events_witness:
  "\<exists>s. streamCursorCli (decodeAs ([] :: (jsstring \<times> unit CursorStreamEvent option) list)) (\<lambda>a. []) None
          [SpawnError (js ''spawn agent ENOENT''), Close (Some (- 2))] = Inr s
       \<and> length (filter isTerminal (calls s)) = 2
       \<and> length (filter (\<lambda>c. c = End) (calls s)) = 2"
proof -
  obtain s where s: "streamCursorCli (decodeAs ([] :: (jsstring \<times> unit CursorStreamEvent option) list))
      (\<lambda>a. []) None [SpawnError (js ''spawn agent ENOENT''), Close (Some (- 2))] = Inr s"
    using streamCursorCli_total by blast
  then have "calls s = [Push EvStart, Push (EvError Error), End, Push (EvError Error), End]"
    using spawn_failure_two_terminal_events by simp
  with s show ?thesis by simp
qed

lemma last_dropWhile:
  "dropWhile P xs \<noteq> [] \<Longrightarrow> last (dropWhile P xs) = last xs"
  by (metis last_appendR takeWhile_dropWhile_id)

lemma trim_shape:
  "trim s = [] \<or> (\<not> isSpace (hd (trim s)) \<and> \<not> isSpace (last (trim s)))"
proof (cases "trim s = []")
  case True
  then show ?thesis by simp
next
  case False
  define t where "t = dropWhile isSpace s"
  define u where "u = dropWhile isSpace (rev t)"
  have tr: "trim s = rev u" by (simp add: trim_def t_def u_def)
  have u: "u \<noteq> []" using False tr by simp
  have t: "t \<noteq> []"
  proof
    assume "t = []"
    then have "u = []" by (simp add: u_def)
    with u show False by simp
  qed
  have "\<not> isSpace (hd u)" using u unfolding u_def by (rule hd_dropWhile)
  then have l: "\<not> isSpace (last (trim s))" using u tr by (simp add: last_rev)
  have "last u = last (rev t)" using u unfolding u_def by (rule last_dropWhile)
  also have "\<dots> = hd t" using t by (simp add: last_rev)
  finally have "hd (trim s) = hd t" using u tr by (simp add: hd_rev)
  moreover have "\<not> isSpace (hd t)" using t unfolding t_def by (rule hd_dropWhile)
  ultimately show ?thesis using l by simp
qed

lemma trim_id:
  assumes "s = [] \<or> (\<not> isSpace (hd s) \<and> \<not> isSpace (last s))"
  shows "trim s = s"
proof (cases "s = []")
  case True
  then show ?thesis by (simp add: trim_def)
next
  case False
  with assms have h: "\<not> isSpace (hd s)" and l: "\<not> isSpace (last s)" by simp_all
  have a: "dropWhile isSpace s = s" using False h by (cases s) auto
  obtain x xs where r: "rev s = x # xs" using False by (cases "rev s") simp_all
  then have "s = rev xs @ [x]" by (simp only: rev_eq_Cons_iff)
  then have "last s = x" by (metis last_snoc)
  then have "dropWhile isSpace (rev s) = rev s" using l r by simp
  with a show ?thesis by (simp add: trim_def)
qed

lemma trim_idem: "trim (trim s) = trim s"
  by (rule trim_id) (rule trim_shape)

text \<open>
  C5, as amended. \<open>parseLine\<close> is a function of the line and of what \<open>JSON.parse\<close>
  answers for its trimmed text, and has a value for every line: nothing for a line that
  is empty or white space only, nothing when decoding fails, nothing when the line
  decodes to \<open>null\<close>, and otherwise the decoded value. The trimmed line gives the same
  result as the line.
\<close>

theorem parseLine_total:
  "((\<forall>c\<in>set line. isSpace c) \<longrightarrow> parseLine parse line = None)
   \<and> (parse (trim line) = Inl e \<longrightarrow> parseLine parse line = None)
   \<and> (parse (trim line) = Inr None \<longrightarrow> parseLine parse line = None)
   \<and> (\<not> (\<forall>c\<in>set line. isSpace c) \<and> parse (trim line) = Inr (Some v)
        \<longrightarrow> parseLine parse line = Some v)
   \<and> parseLine parse (trim line) = parseLine parse line"
  by (auto simp: parseLine_def Let_def trim_idem trim_eq_Nil)

theorem parseLine_total_witness:
  "list_all isSpace (js ''  '') \<and> parseLine scenarioA_parse (js ''  '') = None
   \<and> scenarioA_parse (trim (js ''{oops'')) = Inl SyntaxError
   \<and> parseLine scenarioA_parse (js ''{oops'') = None
   \<and> \<not> (\<forall>c\<in>set scenarioA_line. isSpace c)
   \<and> scenarioA_parse (trim scenarioA_line)
       = Inr (Some (CursorAssistantEvent [CursorTextBlock (js ''text'') (js ''Hi'')]))
   \<and> parseLine scenarioA_parse scenarioA_line
       = Some (CursorAssistantEvent [CursorTextBlock (js ''text'') (js ''Hi'')])
   \<and> decodeAs [(js ''null'', None :: unit option)] (trim (js ''null'')) = Inr None
   \<and> parseLine (decodeAs [(js ''null'', None :: unit option)]) (js ''null'') = None"
proof -
  have w: "\<forall>c\<in>set (js ''  ''). isSpace c" by (simp add: chr_defs)
  then have w': "list_all isSpace (js ''  '')" by (simp only: list_all_iff)
  have o: "trim (js ''{oops'') = js ''{oops''" by (simp add: trim_def chr_defs)
  have f: "scenarioA_parse (js ''{oops'') = Inl SyntaxError"
    by (simp add: scenarioA_parse_def decodeAs_def scenarioA_line_def js_eq_iff)
  have ne: "scenarioA_line \<noteq> []" by (simp add: scenarioA_line_def js_def)
  have a: "\<not> (\<forall>c\<in>set scenarioA_line. isSpace c)"
    using trim_eq_Nil [of scenarioA_line] ne unfolding trim_scenarioA_line by blast
  have p: "scenarioA_parse scenarioA_line
       = Inr (Some (CursorAssistantEvent [CursorTextBlock (js ''text'') (js ''Hi'')]))"
    by (simp add: scenarioA_parse_def decodeAs_def)
  have n: "trim (js ''null'') = js ''null''" by (simp add: trim_def chr_defs)
  have d: "decodeAs [(js ''null'', None :: unit option)] (js ''null'') = Inr None"
    by (simp add: decodeAs_def)
  show ?thesis
    using parseLine_total [where line = "js ''  ''" and parse = scenarioA_parse]
      parseLine_total [where line = "js ''{oops''" and parse = scenarioA_parse
         and e = SyntaxError]
      parseLine_total [where line = scenarioA_line and parse = scenarioA_parse
         and v = "CursorAssistantEvent [CursorTextBlock (js ''text'') (js ''Hi'')]"]
      parseLine_total [where line = "js ''null''"
         and parse = "decodeAs [(js ''null'', None :: unit option)]"]
      w w' o f a p n d
    by (simp add: trim_scenarioA_line)
qed

text \<open>
  The claim as it stands fails on the line \<open>null\<close>: it is not blank, decoding it does
  not fail, and the parser yields nothing.
\<close>

theorem null_line_counterexample:
  "trim (js ''null'') \<noteq> []
   \<and> decodeAs [(js ''null'', None :: unit option)] (trim (js ''null'')) = Inr None
   \<and> parseLine (decodeAs [(js ''null'', None :: unit option)]) (js ''null'') = None"
proof -
  have n: "trim (js ''null'') = js ''null''" by (simp add: trim_def chr_defs)
  have e: "js ''null'' \<noteq> []" by (simp add: js_def)
  show ?thesis using n e by (simp add: parseLine_def decodeAs_def)
qed

lemma discovery_settled_step:
  assumes "promise s \<noteq> Pending"
  shows "promise (discovery_step s e) = promise s
   \<and> sigterms (discovery_step s e) = sigterms s + (if timeoutElapsed e \<and> timerArmed s then 1 else 0)"
proof (cases e)
  case (TimeoutFired k)
  then show ?thesis
    using assms by (cases k) (simp_all add: reject_def clearTimeout_def onChildError_def Let_def)
qed (use assms in \<open>simp_all add: reject_def resolve_def clearTimeout_def onChildError_def Let_def\<close>)

lemma discovery_step_timer:
  "\<not> timerArmed s \<Longrightarrow> \<not> timerArmed (discovery_step s e)"
  by (cases e) (simp_all add: reject_def resolve_def clearTimeout_def onChildError_def Let_def)

lemma discovery_settled:
  "promise s \<noteq> Pending \<Longrightarrow> \<not> timerArmed s \<Longrightarrow>
   promise (foldl discovery_step s evs) = promise s
   \<and> sigterms (foldl discovery_step s evs) = sigterms s"
proof (induction evs arbitrary: s)
  case Nil
  then show ?case by simp
next
  case (Cons e es)
  have "promise (discovery_step s e) = promise s" "sigterms (discovery_step s e) = sigterms s"
    using discovery_settled_step [OF Cons.prems(1), of e] Cons.prems(2) by simp_all
  moreover have "\<not> timerArmed (discovery_step s e)"
    by (rule discovery_step_timer [OF Cons.prems(2)])
  ultimately show ?case using Cons.IH [of "discovery_step s e"] Cons.prems(1) by simp
qed

lemma discovery_data:
  "list_all dataEvent evs \<Longrightarrow>
   foldl discovery_step s evs =
     s\<lparr>stdout := stdout s @ stdoutOf evs, stderr := stderr s @ stderrDataOf evs\<rparr>"
proof (induction evs arbitrary: s)
  case Nil
  then show ?case by simp
next
  case (Cons e es)
  then show ?case by (cases e) simp_all
qed

lemma runAgentModels_data:
  "list_all dataEvent evs \<Longrightarrow>
   runAgentModels evs =
     \<lparr>stdout = stdoutOf evs, stderr = stderrDataOf evs, timerArmed = True, sigterms = 0,
      promise = Pending\<rparr>"
  by (simp add: runAgentModels_def discovery_data discovery_init_def)

lemma runAgentModels_settle:
  assumes "list_all dataEvent evs"
    and "promise (discovery_step (runAgentModels evs) e) \<noteq> Pending"
    and "\<not> timerArmed (discovery_step (runAgentModels evs) e)"
  shows "promise (runAgentModels (evs @ e # rest)) = promise (discovery_step (runAgentModels evs) e)"
    and "sigterms (runAgentModels (evs @ e # rest)) = sigterms (discovery_step (runAgentModels evs) e)"
  using discovery_settled [OF assms(2,3), of rest]
  by (simp_all add: runAgentModels_def)

text \<open>
  While only output has come the promise is pending. The first other event settles it,
  and nothing after that changes it: the timeout rejects it, with the error of \<open>kill\<close>
  when the signal could not be sent, and calls \<open>kill\<close> once; a spawn failure rejects it
  with its error; \<open>close\<close> with a code other than 0 rejects it; \<open>close\<close> with code 0
  rejects it when no line of the output parses into a model definition, and otherwise
  resolves it with the parsed list.
\<close>

lemma discovery_cases:
  assumes "list_all dataEvent evs"
  shows "promise (runAgentModels evs) = Pending"
    and "promise (runAgentModels (evs @ TimeoutFired killError # rest))
             = Rejected (case killError of
                           None \<Rightarrow> js ''agent models timed out after 15000ms''
                         | Some err \<Rightarrow> err)"
    and "sigterms (runAgentModels (evs @ TimeoutFired killError # rest)) = 1"
    and "promise (runAgentModels (evs @ ChildError err # rest)) = Rejected err"
    and "sigterms (runAgentModels (evs @ ChildError err # rest)) = 0"
    and "promise (runAgentModels (evs @ ChildClose code # rest))
             = (if code \<noteq> Some 0
                then Rejected (js ''agent models exited with code '' @ showCode code @ js '': ''
                               @ trim (stderrDataOf evs))
                else if parseAgentModelsOutput (stdoutOf evs) = []
                then Rejected (js ''agent models returned no models'')
                else Resolved (parseAgentModelsOutput (stdoutOf evs)))"
    and "sigterms (runAgentModels (evs @ ChildClose code # rest)) = 0"
proof -
  note d = runAgentModels_data [OF assms]
  have m: "js ''agent models timed out after '' @ digits DISCOVERY_TIMEOUT_MS @ js ''ms''
             = js ''agent models timed out after 15000ms''"
    by (simp add: DISCOVERY_TIMEOUT_MS_def js_def jc_def)
  have t: "promise (discovery_step (runAgentModels evs) (TimeoutFired killError))
             = Rejected (case killError of
                           None \<Rightarrow> js ''agent models timed out after 15000ms''
                         | Some err \<Rightarrow> err)"
    "sigterms (discovery_step (runAgentModels evs) (TimeoutFired killError)) = 1"
    "\<not> timerArmed (discovery_step (runAgentModels evs) (TimeoutFired killError))"
    using m
    by (simp_all add: d reject_def clearTimeout_def onChildError_def Let_def
          split: option.splits del: digits.simps)
  have tp: "promise (discovery_step (runAgentModels evs) (TimeoutFired killError)) \<noteq> Pending"
    unfolding t(1) by simp
  have e: "promise (discovery_step (runAgentModels evs) (ChildError err)) = Rejected err"
    "sigterms (discovery_step (runAgentModels evs) (ChildError err)) = 0"
    "\<not> timerArmed (discovery_step (runAgentModels evs) (ChildError err))"
    by (simp_all add: d reject_def clearTimeout_def onChildError_def)
  have c: "promise (discovery_step (runAgentModels evs) (ChildClose code))
             = (if code \<noteq> Some 0
                then Rejected (js ''agent models exited with code '' @ showCode code @ js '': ''
                               @ trim (stderrDataOf evs))
                else if parseAgentModelsOutput (stdoutOf evs) = []
                then Rejected (js ''agent models returned no models'')
                else Resolved (parseAgentModelsOutput (stdoutOf evs)))"
    "sigterms (discovery_step (runAgentModels evs) (ChildClose code)) = 0"
    "\<not> timerArmed (discovery_step (runAgentModels evs) (ChildClose code))"
    by (simp_all add: d reject_def resolve_def clearTimeout_def Let_def)
  have cp: "promise (discovery_step (runAgentModels evs) (ChildClose code)) \<noteq> Pending"
    unfolding c(1) by simp
  show "promise (runAgentModels evs) = Pending" by (simp add: d)
  show "promise (runAgentModels (evs @ TimeoutFired killError # rest))
             = Rejected (case killError of
                           None \<Rightarrow> js ''agent models timed out after 15000ms''
                         | Some err \<Rightarrow> err)"
    using runAgentModels_settle(1) [OF assms tp t(3), of rest] t(1) by simp
  show "sigterms (runAgentModels (evs @ TimeoutFired killError # rest)) = 1"
    using runAgentModels_settle(2) [OF assms tp t(3), of rest] t(2) by simp
  show "promise (runAgentModels (evs @ ChildError err # rest)) = Rejected err"
    using runAgentModels_settle(1) [OF assms _ e(3), of rest] e(1) by simp
  show "sigterms (runAgentModels (evs @ ChildError err # rest)) = 0"
    using runAgentModels_settle(2) [OF assms _ e(3), of rest] e(1,2) by simp
  show "promise (runAgentModels (evs @ ChildClose code # rest))
             = (if code \<noteq> Some 0
                then Rejected (js ''agent models exited with code '' @ showCode code @ js '': ''
                               @ trim (stderrDataOf evs))
                else if parseAgentModelsOutput (stdoutOf evs) = []
                then Rejected (js ''agent models returned no models'')
                else Resolved (parseAgentModelsOutput (stdoutOf evs)))"
    using runAgentModels_settle(1) [OF assms cp c(3), of rest] c(1) by simp
  show "sigterms (runAgentModels (evs @ ChildClose code # rest)) = 0"
    using runAgentModels_settle(2) [OF assms cp c(3), of rest] c(2) by simp
qed

lemma parse_no_output: "parseAgentModelsOutput [] = []"
  by (simp add: parseAgentModelsOutput_def parseModelLine_def trim_def)

text \<open>
  C7. The discovery call is settled by the first event that is not output, and by
  nothing after it. That event is the timeout, the \<open>close\<close> of the child, or a spawn
  failure, which comes before any output. The call rejects exactly when the timeout has
  elapsed, or the child has exited with a code other than 0, or no line of the output
  parses into a model definition; in every other case it resolves with the parsed list.
  \<open>kill\<close> is called, once, exactly when the timeout has elapsed.
\<close>

theorem discovery_outcome:
  assumes "list_all dataEvent evs" and "\<not> dataEvent e"
    and "spawnFailure e \<Longrightarrow> stdoutOf evs = []"
  shows "promise (runAgentModels evs) = Pending
       \<and> (isRejected (promise (runAgentModels (evs @ e # rest)))
            \<longleftrightarrow> timeoutElapsed e \<or> exitedNonZero e
                \<or> parseAgentModelsOutput (stdoutOf evs) = [])
       \<and> (\<not> isRejected (promise (runAgentModels (evs @ e # rest)))
            \<longrightarrow> promise (runAgentModels (evs @ e # rest))
                = Resolved (parseAgentModelsOutput (stdoutOf evs)))
       \<and> sigterms (runAgentModels (evs @ e # rest)) = (if timeoutElapsed e then 1 else 0)"
proof -
  note c = discovery_cases [OF assms(1)]
  show ?thesis
  proof (cases e)
    case (StdoutData x)
    with assms(2) show ?thesis by simp
  next
    case (StderrData x)
    with assms(2) show ?thesis by simp
  next
    case (TimeoutFired k)
    show ?thesis
      using c(1) c(2) [of k rest] c(3) [of k rest] by (simp add: TimeoutFired)
  next
    case (ChildError err)
    have "stdoutOf evs = []" by (rule assms(3)) (simp add: ChildError)
    then have "parseAgentModelsOutput (stdoutOf evs) = []" by (simp add: parse_no_output)
    then show ?thesis
      using c(1) c(4) [of err rest] c(5) [of err rest] by (simp add: ChildError)
  next
    case (ChildClose code)
    show ?thesis
      using c(1) c(6) [of code rest] c(7) [of code rest] by (simp add: ChildClose)
  qed
qed

lemmas parse_defs = parseModelLine_def trim_def startsWith_def STATIC_MODELS_MAP_def
  STATIC_MODELS_def inferReasoning_def

lemma scenarioD_lines:
  "split 0x0A scenarioD_output =
     [js ''auto - Auto'', js ''sonnet-4.6 - Claude 4.6 Sonnet  (current)'', []]"
  by (simp add: scenarioD_output_def js_def jc_def)

lemma parse_auto:
  "parseModelLine (js ''auto - Auto'') =
     Some \<lparr>id' = js ''auto'', name = js ''Auto'', reasoning = False,
           contextWindow = 200000, maxTokens = 32768\<rparr>"
  by (simp add: parse_defs chr_defs re_defs)

lemma parse_sonnet:
  "parseModelLine (js ''sonnet-4.6 - Claude 4.6 Sonnet  (current)'') =
     Some \<lparr>id' = js ''sonnet-4.6'', name = js ''Claude 4.6 Sonnet'', reasoning = False,
           contextWindow = 200000, maxTokens = 32000\<rparr>"
  by (simp add: parse_defs chr_defs re_defs)

lemma parse_empty: "parseModelLine [] = None"
  by (simp add: parseModelLine_def trim_def)

lemma scenarioD_parsed:
  "parseAgentModelsOutput scenarioD_output =
     [\<lparr>id' = js ''auto'', name = js ''Auto'', reasoning = False,
       contextWindow = 200000, maxTokens = 32768\<rparr>,
      \<lparr>id' = js ''sonnet-4.6'', name = js ''Claude 4.6 Sonnet'', reasoning = False,
       contextWindow = 200000, maxTokens = 32000\<rparr>]"
  by (simp add: parseAgentModelsOutput_def scenarioD_lines List.map_filter_simps
        parse_auto parse_sonnet parse_empty)

theorem discovery_outcome_witness:
  "list_all dataEvent [StdoutData scenarioD_output]
   \<and> \<not> dataEvent (ChildClose (Some 0)) \<and> \<not> spawnFailure (ChildClose (Some 0))
   \<and> promise (runAgentModels [StdoutData scenarioD_output]) = Pending
   \<and> promise (runAgentModels ([StdoutData scenarioD_output] @ ChildClose (Some 0) # []))
       = Resolved [\<lparr>id' = js ''auto'', name = js ''Auto'', reasoning = False,
                    contextWindow = 200000, maxTokens = 32768\<rparr>,
                   \<lparr>id' = js ''sonnet-4.6'', name = js ''Claude 4.6 Sonnet'', reasoning = False,
                    contextWindow = 200000, maxTokens = 32000\<rparr>]
   \<and> sigterms (runAgentModels ([StdoutData scenarioD_output] @ ChildClose (Some 0) # [])) = 0
   \<and> \<not> dataEvent (TimeoutFired None) \<and> \<not> spawnFailure (TimeoutFired None)
   \<and> isRejected (promise (runAgentModels
         ([StdoutData scenarioD_output] @ TimeoutFired None # [ChildClose None])))
   \<and> sigterms (runAgentModels
         ([StdoutData scenarioD_output] @ TimeoutFired None # [ChildClose None])) = 1
   \<and> list_all dataEvent [] \<and> \<not> dataEvent (ChildError (js ''spawn agent ENOENT''))
   \<and> stdoutOf [] = []
   \<and> isRejected (promise (runAgentModels
         ([] @ ChildError (js ''spawn agent ENOENT'') # [ChildClose (Some (- 2))])))
   \<and> sigterms (runAgentModels
         ([] @ ChildError (js ''spawn agent ENOENT'') # [ChildClose (Some (- 2))])) = 0"
proof -
  have ne: "parseAgentModelsOutput scenarioD_output \<noteq> []" by (simp add: scenarioD_parsed)
  have 1: "promise (runAgentModels [StdoutData scenarioD_output]) = Pending
     \<and> promise (runAgentModels ([StdoutData scenarioD_output] @ ChildClose (Some 0) # []))
         = Resolved (parseAgentModelsOutput scenarioD_output)
     \<and> sigterms (runAgentModels ([StdoutData scenarioD_output] @ ChildClose (Some 0) # [])) = 0"
    using discovery_outcome [of "[StdoutData scenarioD_output]" "ChildClose (Some 0)" "[]"] ne
    by simp
  have 2: "isRejected (promise (runAgentModels
         ([StdoutData scenarioD_output] @ TimeoutFired None # [ChildClose None])))
     \<and> sigterms (runAgentModels
         ([StdoutData scenarioD_output] @ TimeoutFired None # [ChildClose None])) = 1"
    using discovery_outcome [of "[StdoutData scenarioD_output]" "TimeoutFired None" "[ChildClose None]"]
    by simp
  have 3: "isRejected (promise (runAgentModels
         ([] @ ChildError (js ''spawn agent ENOENT'') # [ChildClose (Some (- 2))])))
     \<and> sigterms (runAgentModels
         ([] @ ChildError (js ''spawn agent ENOENT'') # [ChildClose (Some (- 2))])) = 0"
    using discovery_outcome [of "[]" "ChildError (js ''spawn agent ENOENT'')" "[ChildClose (Some (- 2))]"]
    by (simp add: parse_no_output)
  from 1 2 3 show ?thesis by (simp add: scenarioD_parsed)
qed

lemma streaming_errorsBeforeOutput:
  "list_all streaming evs \<Longrightarrow> errorsBeforeOutput seen evs"
proof (induction evs arbitrary: seen)
  case Nil
  then show ?case by simp
next
  case (Cons e es)
  then show ?case by (cases e) simp_all
qed

lemma scenarioA_aborted:
  "streamCursorCli scenarioA_parse (\<lambda>a. []) (Some False) [Line scenarioA_line, Abort] =
     Inr \<lparr>output' = \<lparr>content = [TextContent (js ''Hi'')], stopReason = Stop, errorMessage = None\<rparr>,
          textBlockOpen = True, accumulatedText = js ''Hi'', stderrChunks = [],
          signalAborted = True, abortListener = False, kills = 1,
          calls = [Push EvStart, Push (EvTextStart 0), Push (EvTextDelta 0 (js ''Hi''))]\<rparr>"
proof -
  have ne: "scenarioA_line \<noteq> []" by (simp add: scenarioA_line_def js_def)
  have t: "trim (js ''Hi'') \<noteq> []" by (simp add: trim_def chr_defs)
  show ?thesis
    using ne t by (simp add: stream_defs scenarioA_parse_def trim_scenarioA_line)
qed

text \<open>
  C4. The code does not keep the claim when the handle emits \<open>error\<close> after output,
  as it does when \<open>kill\<close> cannot send the signal of an abort. After any lines,
  diagnostic chunks and cancellations that leave a text block open, the calls made so
  far keep the discipline, with the last content block open; the listener of \<open>error\<close>
  then pushes the terminal \<open>error\<close> event and ends the stream with that block open: no
  \<open>text_end\<close> has been pushed, and the discipline is broken. The \<open>close\<close> event that
  follows pushes the \<open>text_end\<close> of the block after the terminal event and the end of the
  stream.
\<close>

theorem error_event_leaves_text_block_open:
  assumes "list_all streaming evs"
    and "streamCursorCli parse stringify signal evs = Inr s"
    and "textBlockOpen s"
  shows "bracket (calls s) = Some (Some (length (content (output' s)) - 1))
       \<and> streamCursorCli parse stringify signal (evs @ [SpawnError message])
           = Inr (onError message s)
       \<and> textBlockOpen (onError message s)
       \<and> calls (onError message s) = calls s @ [Push (EvError Error), End]
       \<and> filter isTextEnd (calls (onError message s)) = []
       \<and> bracket (calls (onError message s)) = None
       \<and> streamCursorCli parse stringify signal (evs @ [SpawnError message, Close code])
           = Inr (onClose code (onError message s))
       \<and> take (length (calls s) + 3) (calls (onClose code (onError message s)))
           = calls s @ [Push (EvError Error), End,
                        Push (EvTextEnd (length (content (output' s)) - 1) (accumulatedText s))]"
proof -
  have r: "run parse stringify (initial signal) evs = Inr s"
    using assms(2) by (simp add: streamCursorCli_def)
  from run_bracketInv [OF bracketInv_initial _ streaming_errorsBeforeOutput [OF assms(1)],
      of signal False parse stringify] r
  have "bracketInv s" by (simp add: initial_def)
  with assms(3) have b: "bracket (calls s) = Some (Some (length (content (output' s)) - 1))"
    by (simp add: bracketInv_def)
  from run_streaming [OF assms(1) streamingInv_initial, of parse stringify signal] r
  have "streamingInv s" by simp
  then have te: "filter isTextEnd (calls s) = []" by (simp add: streamingInv_def)
  have e: "run parse stringify (initial signal) (evs @ [SpawnError message]) = Inr (onError message s)"
    using run_snoc [OF r, of "SpawnError message"] by simp
  have c: "run parse stringify (initial signal) (evs @ [SpawnError message, Close code])
             = Inr (onClose code (onError message s))"
    using run_snoc [OF e, of "Close code"] by simp
  have o: "textBlockOpen (onError message s)"
    "calls (onError message s) = calls s @ [Push (EvError Error), End]"
    using assms(3) by (simp_all add: onError_def)
  have f: "filter isTextEnd (calls (onError message s)) = []"
    by (simp add: o(2) te)
  have n: "bracket (calls (onError message s)) = None"
    by (simp add: o(2) bracket_snoc2 b)
  have k: "take (length (calls s) + 3) (calls (onClose code (onError message s)))
           = calls s @ [Push (EvError Error), End,
                        Push (EvTextEnd (length (content (output' s)) - 1) (accumulatedText s))]"
    using assms(3) by (simp add: onClose_def onError_def Let_def)
  from b e c o f n k show ?thesis by (simp add: streamCursorCli_def)
qed

theorem error_event_leaves_text_block_open_witness:
  "list_all streaming [Line scenarioA_line, Abort]
   \<and> streamCursorCli scenarioA_parse (\<lambda>a. []) (Some False) [Line scenarioA_line, Abort] =
       Inr \<lparr>output' = \<lparr>content = [TextContent (js ''Hi'')], stopReason = Stop, errorMessage = None\<rparr>,
            textBlockOpen = True, accumulatedText = js ''Hi'', stderrChunks = [],
            signalAborted = True, abortListener = False, kills = 1,
            calls = [Push EvStart, Push (EvTextStart 0), Push (EvTextDelta 0 (js ''Hi''))]\<rparr>
   \<and> streamCursorCli scenarioA_parse (\<lambda>a. []) (Some False)
         ([Line scenarioA_line, Abort] @ [SpawnError (js ''kill EPERM'')]) =
       Inr \<lparr>output' = \<lparr>content = [TextContent (js ''Hi'')], stopReason = Error,
                       errorMessage = Some (js ''kill EPERM'')\<rparr>,
            textBlockOpen = True, accumulatedText = js ''Hi'', stderrChunks = [],
            signalAborted = True, abortListener = False, kills = 1,
            calls = [Push EvStart, Push (EvTextStart 0), Push (EvTextDelta 0 (js ''Hi'')),
                     Push (EvError Error), End]\<rparr>
   \<and> bracket [Push EvStart, Push (EvTextStart 0), Push (EvTextDelta 0 (js ''Hi''))] = Some (Some 0)
   \<and> bracket [Push EvStart, Push (EvTextStart 0), Push (EvTextDelta 0 (js ''Hi'')),
               Push (EvError Error), End] = None"
  using error_event_leaves_text_block_open [OF _ scenarioA_aborted, of "js ''kill EPERM''" None]
  by (simp add: scenarioA_aborted onError_def)

lemma firstMatch_Some_iff:
  "firstMatch r st = Some m \<longleftrightarrow> (\<exists>others. ms r st = m # others)"
  by (auto simp: firstMatch_def split: list.splits)

lemma firstMatch_Seq:
  assumes "firstMatch r1 st = Some m1" "firstMatch r2 m1 = Some m2"
  shows "firstMatch (Seq r1 r2) st = Some m2"
  using assms by (auto simp: firstMatch_Some_iff)

lemma firstMatch_Seq_skip:
  assumes "ms r1 st = fails @ m1 # others"
    and "\<forall>x\<in>set fails. ms r2 x = []"
    and "firstMatch r2 m1 = Some m2"
  shows "firstMatch (Seq r1 r2) st = Some m2"
proof -
  have c: "concat (map (ms r2) fails) = []" using assms(2) by simp
  obtain o2 where o2: "ms r2 m1 = m2 # o2"
    using assms(3) by (auto simp: firstMatch_Some_iff)
  have "ms (Seq r1 r2) st =
          concat (map (ms r2) fails) @ ms r2 m1 @ concat (map (ms r2) others)"
    using assms(1) by simp
  also have "\<dots> = m2 # (o2 @ concat (map (ms r2) others))"
    by (simp only: c o2 append_Nil append_Cons)
  finally show ?thesis by (simp only: firstMatch_Some_iff) blast
qed

lemma exec_firstMatch:
  "firstMatch r ([], s, Map.empty) = Some m \<Longrightarrow> exec r s = Some ([], m)"
  by (auto simp: exec_def firstMatch_Some_iff)

lemma ms_Star_nonempty: "ms (Star r) st \<noteq> []"
  by (cases st) simp

lemma firstMatch_Star_Chr:
  assumes "list_all P xs" "R = [] \<or> \<not> P (hd R)"
  shows "firstMatch (Star (Chr P)) (pre, xs @ R, caps) = Some (pre @ xs, R, caps)"
  using assms
proof (induction xs arbitrary: pre)
  case Nil
  then show ?case by (cases R) (auto simp: firstMatch_def)
next
  case (Cons x xs)
  have px: "P x" and rest: "list_all P xs" using Cons.prems(1) by simp_all
  have "ms (Star (Chr P)) (pre, (x # xs) @ R, caps) =
          ms (Star (Chr P)) (pre @ [x], xs @ R, caps) @ [(pre, (x # xs) @ R, caps)]"
    using px by simp
  moreover from Cons.IH [OF rest Cons.prems(2), of "pre @ [x]"]
  obtain others where "ms (Star (Chr P)) (pre @ [x], xs @ R, caps) = (pre @ x # xs, R, caps) # others"
    by (auto simp: firstMatch_Some_iff)
  ultimately show ?case by (simp add: firstMatch_Some_iff)
qed

lemma firstMatch_Chr:
  "P x \<Longrightarrow> firstMatch (Chr P) (pre, x # R, caps) = Some (pre @ [x], R, caps)"
  by (simp add: firstMatch_def)

lemma firstMatch_Plus_Chr:
  assumes "xs \<noteq> []" "list_all P xs" "R = [] \<or> \<not> P (hd R)"
  shows "firstMatch (Plus (Chr P)) (pre, xs @ R, caps) = Some (pre @ xs, R, caps)"
proof -
  obtain x xs' where xs: "xs = x # xs'" using assms(1) by (cases xs) auto
  have "firstMatch (Chr P) (pre, x # xs' @ R, caps) = Some (pre @ [x], xs' @ R, caps)"
    using assms(2) xs by (simp add: firstMatch_Chr)
  moreover have "firstMatch (Star (Chr P)) (pre @ [x], xs' @ R, caps) = Some ((pre @ [x]) @ xs', R, caps)"
    using assms(2,3) xs by (intro firstMatch_Star_Chr) simp_all
  ultimately show ?thesis
    unfolding Plus_def using xs firstMatch_Seq by fastforce
qed

lemma firstMatch_Lit:
  "firstMatch (Lit w) (pre, w @ R, caps) = Some (pre @ w, R, caps)"
  by (simp add: firstMatch_def ms_Lit)

lemma firstMatch_Group:
  "firstMatch r (pre, rest, caps) = Some (pre', rest', caps') \<Longrightarrow>
   firstMatch (Group n r) (pre, rest, caps) = Some (pre', rest', caps'(n \<mapsto> drop (length pre) pre'))"
  by (auto simp: firstMatch_Some_iff)

lemma upt_Suc_shift: "[0..<Suc (Suc n)] = 0 # map Suc [0..<Suc n]"
  by (metis map_Suc_upt upt_conv_Cons zero_less_Suc)

lemma ms_LazyStar_Chr_prefix:
  "ms (LazyStar (Chr P)) (pre, X, caps) =
     map (\<lambda>k. (pre @ take k X, drop k X, caps)) [0..<Suc (length (takeWhile P X))]"
proof (induction X arbitrary: pre)
  case Nil
  show ?case by simp
next
  case (Cons x X)
  show ?case
  proof (cases "P x")
    case True
    have "ms (LazyStar (Chr P)) (pre, x # X, caps) =
            (pre, x # X, caps) # ms (LazyStar (Chr P)) (pre @ [x], X, caps)"
      using True by simp
    also have "\<dots> = (pre, x # X, caps) #
        map (\<lambda>k. ((pre @ [x]) @ take k X, drop k X, caps)) [0..<Suc (length (takeWhile P X))]"
      by (simp only: Cons.IH)
    also have "\<dots> = map (\<lambda>k. (pre @ take k (x # X), drop k (x # X), caps))
                        [0..<Suc (length (takeWhile P (x # X)))]"
      using True by (simp add: upt_Suc_shift comp_def del: upt_Suc)
    finally show ?thesis .
  next
    case False
    then show ?thesis by simp
  qed
qed

lemma ms_LazyPlus_Chr_prefix:
  assumes "X \<noteq> []" "P (hd X)"
  shows "ms (LazyPlus (Chr P)) (pre, X, caps) =
           map (\<lambda>k. (pre @ take k X, drop k X, caps)) [1..<Suc (length (takeWhile P X))]"
proof -
  obtain x X' where X: "X = x # X'" using assms(1) by (cases X) auto
  have px: "P x" using assms(2) X by simp
  have "ms (LazyPlus (Chr P)) (pre, X, caps) = ms (LazyStar (Chr P)) (pre @ [x], X', caps)"
    using px X by (simp add: LazyPlus_def del: ms.simps(6))
  also have "\<dots> = map (\<lambda>k. ((pre @ [x]) @ take k X', drop k X', caps))
                       [0..<Suc (length (takeWhile P X'))]"
    by (rule ms_LazyStar_Chr_prefix)
  also have "\<dots> = map (\<lambda>k. (pre @ take k X, drop k X, caps))
                       (map Suc [0..<Suc (length (takeWhile P X'))])"
    using X by (simp add: comp_def)
  also have "map Suc [0..<Suc (length (takeWhile P X'))] = [1..<Suc (length (takeWhile P X))]"
    using X px by (simp add: map_Suc_upt del: upt_Suc)
  finally show ?thesis .
qed

lemma firstMatch_Opt_Seq:
  "firstMatch (Seq r e) st = Some m \<Longrightarrow> firstMatch (Seq (Opt r) e) st = Some m"
  by (auto simp: firstMatch_Some_iff Opt_def)

lemma firstMatch_Alt_left:
  "firstMatch r1 st = Some m \<Longrightarrow> firstMatch (Alt r1 r2) st = Some m"
  by (auto simp: firstMatch_Some_iff)

lemma firstMatch_Alt_right:
  "ms r1 st = [] \<Longrightarrow> firstMatch (Alt r1 r2) st = firstMatch r2 st"
  by (simp add: firstMatch_def)

lemma ms_Star_Chr_Nil: "ms (Star (Chr P)) (p, [], c) = [(p, [], c)]"
  by simp

lemma ms_Star_Chr_Cons:
  "ms (Star (Chr P)) (p, x # xs, c) =
     (if P x then ms (Star (Chr P)) (p @ [x], xs, c) else []) @ [(p, x # xs, c)]"
  by simp

lemma ms_Star_Chr_set:
  "(p', r', c') \<in> set (ms (Star (Chr P)) (p, r, c)) \<Longrightarrow>
   \<exists>w. list_all P w \<and> r = w @ r' \<and> p' = p @ w \<and> c' = c"
proof (induction r arbitrary: p)
  case Nil
  then have "(p', r', c') = (p, [], c)" by (simp only: ms_Star_Chr_Nil) (simp del: ms.simps)
  then have "list_all P [] \<and> [] = [] @ r' \<and> p' = p @ [] \<and> c' = c" by simp
  then show ?case by blast
next
  case (Cons x xs)
  from Cons.prems have
    "(P x \<and> (p', r', c') \<in> set (ms (Star (Chr P)) (p @ [x], xs, c))) \<or> (p', r', c') = (p, x # xs, c)"
    by (simp only: ms_Star_Chr_Cons) (auto simp del: ms.simps split: if_splits)
  then show ?case
  proof
    assume a: "P x \<and> (p', r', c') \<in> set (ms (Star (Chr P)) (p @ [x], xs, c))"
    then have "(p', r', c') \<in> set (ms (Star (Chr P)) (p @ [x], xs, c))" by blast
    from Cons.IH [OF this] obtain w where
      w: "list_all P w" "xs = w @ r'" "p' = (p @ [x]) @ w" "c' = c" by blast
    moreover have "P x" using a by blast
    ultimately have "list_all P (x # w) \<and> x # xs = (x # w) @ r' \<and> p' = p @ (x # w) \<and> c' = c"
      by simp
    then show ?thesis by blast
  next
    assume "(p', r', c') = (p, x # xs, c)"
    then have "list_all P [] \<and> x # xs = [] @ r' \<and> p' = p @ [] \<and> c' = c" by simp
    then show ?thesis by blast
  qed
qed

lemma ms_Plus_Chr_set:
  assumes "(p', r', c') \<in> set (ms (Plus (Chr P)) (p, r, c))"
  shows "\<exists>w. w \<noteq> [] \<and> list_all P w \<and> r = w @ r' \<and> p' = p @ w \<and> c' = c"
proof (cases r)
  case Nil
  then show ?thesis using assms by (simp del: ms.simps add: Plus_def ms.simps(1,3))
next
  case (Cons x xs)
  show ?thesis
  proof (cases "P x")
    case True
    then have "(p', r', c') \<in> set (ms (Star (Chr P)) (p @ [x], xs, c))"
      using assms Cons by (simp del: ms.simps add: Plus_def ms.simps(1,3))
    from ms_Star_Chr_set [OF this] obtain w where
      w: "list_all P w" "xs = w @ r'" "p' = (p @ [x]) @ w" "c' = c" by blast
    with True Cons
    have "x # w \<noteq> [] \<and> list_all P (x # w) \<and> r = (x # w) @ r' \<and> p' = p @ (x # w) \<and> c' = c"
      by simp
    then show ?thesis by blast
  next
    case False
    then show ?thesis using assms Cons by (simp del: ms.simps add: Plus_def ms.simps(1,3))
  qed
qed

lemma ms_Lit_set:
  "m \<in> set (ms (Lit l) (p, r, c)) \<Longrightarrow> \<exists>r'. r = l @ r' \<and> m = (p @ l, r', c)"
proof -
  assume a: "m \<in> set (ms (Lit l) (p, r, c))"
  then have t: "take (length l) r = l" and m: "m = (p @ l, drop (length l) r, c)"
    by (simp_all add: ms_Lit split: if_splits)
  have "r = take (length l) r @ drop (length l) r" by simp
  then have "r = l @ drop (length l) r" by (simp only: t)
  with m show ?thesis by blast
qed

lemma ms_Seq_set:
  "m \<in> set (ms (Seq a b) st) \<longleftrightarrow> (\<exists>x\<in>set (ms a st). m \<in> set (ms b x))"
  by simp

lemma ms_Alt_set: "m \<in> set (ms (Alt a b) st) \<longleftrightarrow> m \<in> set (ms a st) \<or> m \<in> set (ms b st)"
  by simp

lemma statusRe_full:
  assumes "(p', [], c') \<in> set (ms statusRe (p, r, c))"
  shows "\<exists>sp body. r = sp @ js ''('' @ body @ js '')'' \<and> sp \<noteq> [] \<and> list_all isSpace sp
           \<and> (body = js ''current'' \<or> body = js ''default''
                \<or> (\<exists>sp2. list_all isSpace sp2 \<and> body = js ''current,'' @ sp2 @ js ''default''))"
proof -
  let ?body = "Alt (Lit (js ''current''))
                 (Alt (Lit (js ''default''))
                   (Seq (Lit (js ''current,'')) (Seq (Star (Chr isSpace)) (Lit (js ''default'')))))"
  from assms obtain x1 where
    x1: "x1 \<in> set (ms (Plus (Chr isSpace)) (p, r, c))"
    and a1: "(p', [], c') \<in> set (ms (Seq (Lit (js ''('')) (Seq ?body (Lit (js '')'')))) x1)"
    unfolding statusRe_def ms_Seq_set by blast
  obtain p1 r1 c1 where x1eq: "x1 = (p1, r1, c1)" by (cases x1)
  from ms_Plus_Chr_set [OF x1 [unfolded x1eq]] obtain sp where
    sp: "sp \<noteq> []" "list_all isSpace sp" "r = sp @ r1" by blast
  from a1 obtain x2 where
    x2: "x2 \<in> set (ms (Lit (js ''('')) (p1, r1, c1))"
    and a2: "(p', [], c') \<in> set (ms (Seq ?body (Lit (js '')''))) x2)"
    unfolding x1eq ms_Seq_set by blast
  from ms_Lit_set [OF x2] obtain r2 where
    r2: "r1 = js ''('' @ r2" and x2eq: "x2 = (p1 @ js ''('', r2, c1)" by blast
  from a2 obtain x3 where
    x3: "x3 \<in> set (ms ?body x2)"
    and a3: "(p', [], c') \<in> set (ms (Lit (js '')'')) x3)"
    unfolding ms_Seq_set by blast
  obtain p3 r3 c3 where x3eq: "x3 = (p3, r3, c3)" by (cases x3)
  from ms_Lit_set [OF a3 [unfolded x3eq]] have r3: "r3 = js '')''" by simp
  have "\<exists>body. r2 = body @ r3
          \<and> (body = js ''current'' \<or> body = js ''default''
               \<or> (\<exists>sp2. list_all isSpace sp2 \<and> body = js ''current,'' @ sp2 @ js ''default''))"
  proof -
    from x3 consider
      (cur) "x3 \<in> set (ms (Lit (js ''current'')) x2)"
      | (def) "x3 \<in> set (ms (Lit (js ''default'')) x2)"
      | (both) "x3 \<in> set (ms (Seq (Lit (js ''current,''))
                               (Seq (Star (Chr isSpace)) (Lit (js ''default'')))) x2)"
      unfolding ms_Alt_set by blast
    then show ?thesis
    proof cases
      case cur
      from ms_Lit_set [OF cur [unfolded x2eq]] x3eq have "r2 = js ''current'' @ r3" by simp
      then show ?thesis by blast
    next
      case def
      from ms_Lit_set [OF def [unfolded x2eq]] x3eq have "r2 = js ''default'' @ r3" by simp
      then show ?thesis by blast
    next
      case both
      then obtain x4 where
        x4: "x4 \<in> set (ms (Lit (js ''current,'')) (p1 @ js ''('', r2, c1))"
        and a4: "x3 \<in> set (ms (Seq (Star (Chr isSpace)) (Lit (js ''default''))) x4)"
        unfolding x2eq ms_Seq_set by blast
      from ms_Lit_set [OF x4] obtain r4 where
        r4: "r2 = js ''current,'' @ r4" and x4eq: "x4 = ((p1 @ js ''('') @ js ''current,'', r4, c1)"
        by blast
      from a4 obtain x5 where
        x5: "x5 \<in> set (ms (Star (Chr isSpace)) ((p1 @ js ''('') @ js ''current,'', r4, c1))"
        and a5: "x3 \<in> set (ms (Lit (js ''default'')) x5)"
        unfolding x4eq ms_Seq_set by blast
      obtain p5 r5 c5 where x5eq: "x5 = (p5, r5, c5)" by (cases x5)
      from ms_Star_Chr_set [OF x5 [unfolded x5eq]] obtain sp2 where
        sp2: "list_all isSpace sp2" "r4 = sp2 @ r5" by blast
      from ms_Lit_set [OF a5 [unfolded x5eq]] x3eq have "r5 = js ''default'' @ r3" by simp
      with r4 sp2 have "r2 = (js ''current,'' @ sp2 @ js ''default'') @ r3" by simp
      with sp2(1) show ?thesis by blast
    qed
  qed
  then obtain body where
    body: "r2 = body @ r3"
      "body = js ''current'' \<or> body = js ''default''
       \<or> (\<exists>sp2. list_all isSpace sp2 \<and> body = js ''current,'' @ sp2 @ js ''default'')"
    by blast
  have "r = sp @ js ''('' @ body @ js '')''" using sp(3) r2 body(1) r3 by simp
  with sp(1,2) body(2) show ?thesis by blast
qed

lemma not_isSpace_ascii:
  "\<not> isSpace (jc CHR ''('')" "\<not> isSpace (jc CHR ''d'')" "\<not> isSpace (jc CHR '')'')"
  by (simp_all add: chr_defs)

lemma dropWhile_spaces:
  "list_all isSpace sp \<Longrightarrow> \<not> isSpace x \<Longrightarrow> dropWhile isSpace (sp @ x # xs) = x # xs"
  by (induction sp) simp_all

lemma statusRe_statusMarker:
  assumes "(p', [], c') \<in> set (ms statusRe (p, r, c))"
  shows "statusMarker r"
proof -
  from statusRe_full [OF assms] obtain sp body where
    r: "r = sp @ js ''('' @ body @ js '')''" and sp: "sp \<noteq> []" "list_all isSpace sp"
    and body: "body = js ''current'' \<or> body = js ''default''
       \<or> (\<exists>sp2. list_all isSpace sp2 \<and> body = js ''current,'' @ sp2 @ js ''default'')"
    by blast
  let ?t = "js ''('' @ body @ js '')''"
  have t: "dropWhile isSpace r = ?t"
    using dropWhile_spaces [OF sp(2) not_isSpace_ascii(1), of "body @ js '')''"]
    by (simp add: r js_def)
  have ne: "?t \<noteq> r" using sp(1) r by simp
  from body have
    "?t = js ''(current)'' \<or> ?t = js ''(default)'' \<or>
     (startsWith ?t (js ''(current,'') \<and> dropWhile isSpace (drop 9 ?t) = js ''default)'')"
  proof (elim disjE exE conjE)
    assume "body = js ''current''"
    then show ?thesis by (simp add: js_def)
  next
    assume "body = js ''default''"
    then show ?thesis by (simp add: js_def)
  next
    fix sp2 assume sp2: "list_all isSpace sp2" and b: "body = js ''current,'' @ sp2 @ js ''default''"
    have "startsWith ?t (js ''(current,'')" by (simp add: b startsWith_def js_def)
    moreover have "drop 9 ?t = sp2 @ jc CHR ''d'' # js ''efault)''" by (simp add: b js_def)
    then have "dropWhile isSpace (drop 9 ?t) = js ''default)''"
      using dropWhile_spaces [OF sp2 not_isSpace_ascii(2), of "js ''efault)''"]
      by (simp add: js_def)
    ultimately show ?thesis by blast
  qed
  with t ne show ?thesis by (simp add: statusMarker_def Let_def)
qed

lemma statusRe_paren_form:
  assumes "(p', [], c') \<in> set (ms statusRe (p, r, c))"
  shows "\<exists>sp body. r = sp @ jc CHR ''('' # body @ [jc CHR '')''] \<and> list_all isSpace sp
           \<and> jc CHR ''('' \<notin> set body"
proof -
  from statusRe_full [OF assms] obtain sp body where
    r: "r = sp @ js ''('' @ body @ js '')''" and sp: "list_all isSpace sp"
    and body: "body = js ''current'' \<or> body = js ''default''
       \<or> (\<exists>sp2. list_all isSpace sp2 \<and> body = js ''current,'' @ sp2 @ js ''default'')"
    by blast
  from body have "jc CHR ''('' \<notin> set body"
  proof (elim disjE exE conjE)
    assume "body = js ''current''"
    then show ?thesis by (simp add: js_def jc_eq_iff)
  next
    assume "body = js ''default''"
    then show ?thesis by (simp add: js_def jc_eq_iff)
  next
    fix sp2 assume sp2: "list_all isSpace sp2" and b: "body = js ''current,'' @ sp2 @ js ''default''"
    have "jc CHR ''('' \<notin> set sp2"
      using sp2 not_isSpace_ascii(1) by (auto simp: list_all_iff)
    then show ?thesis by (simp add: b js_def jc_eq_iff)
  qed
  moreover have "r = sp @ jc CHR ''('' # body @ [jc CHR '')'']" by (simp add: r js_def)
  ultimately show ?thesis using sp by blast
qed

lemma split_at_first:
  assumes "a @ x # b = c @ x # d" "x \<notin> set a" "x \<notin> set c"
  shows "a = c \<and> b = d"
proof -
  have "takeWhile (\<lambda>y. y \<noteq> x) (a @ x # b) = a"
    using assms(2) by (auto simp: takeWhile_tail)
  moreover have "takeWhile (\<lambda>y. y \<noteq> x) (c @ x # d) = c"
    using assms(3) by (auto simp: takeWhile_tail)
  ultimately have "a = c" using assms(1) by simp
  with assms(1) show ?thesis by simp
qed

lemma split_at_last:
  assumes "a @ x # b = c @ x # d" "x \<notin> set b" "x \<notin> set d"
  shows "a = c \<and> b = d"
proof -
  from assms(1) have "rev (a @ x # b) = rev (c @ x # d)" by simp
  then have "rev b @ x # rev a = rev d @ x # rev c" by simp
  moreover have "x \<notin> set (rev b)" "x \<notin> set (rev d)" using assms(2,3) by simp_all
  ultimately have "rev b = rev d \<and> rev a = rev c" by (rule split_at_first)
  then show ?thesis by simp
qed

text \<open>
  A text that ends with a parenthesis in the place of a status marker, after a part that
  does not end with white space, is not itself accepted by \<open>statusRe\<close>.
\<close>

lemma no_marker_after_text:
  assumes "u \<noteq> []" "\<not> isSpace (last u)" "jc CHR ''('' \<notin> set b"
  shows "(p', [], c') \<notin> set (ms statusRe (p, u @ ws @ js ''('' @ b @ js '')'', c))"
proof
  assume "(p', [], c') \<in> set (ms statusRe (p, u @ ws @ js ''('' @ b @ js '')'', c))"
  from statusRe_paren_form [OF this] obtain sp body where
    eq: "u @ ws @ js ''('' @ b @ js '')'' = sp @ jc CHR ''('' # body @ [jc CHR '')'']"
    and sp: "list_all isSpace sp" and body: "jc CHR ''('' \<notin> set body"
    by blast
  have "(u @ ws) @ jc CHR ''('' # (b @ [jc CHR '')'']) = sp @ jc CHR ''('' # (body @ [jc CHR '')''])"
    using eq by (simp add: js_def)
  moreover have "jc CHR ''('' \<notin> set (b @ [jc CHR '')''])" "jc CHR ''('' \<notin> set (body @ [jc CHR '')''])"
    using assms(3) body by (simp_all add: jc_eq_iff)
  ultimately have "u @ ws = sp \<and> b @ [jc CHR '')''] = body @ [jc CHR '')'']"
    by (rule split_at_last)
  then have "list_all isSpace (u @ ws)" using sp by simp
  then have "list_all isSpace u" by simp
  then have "isSpace (last u)" using assms(1) by (simp add: list_all_iff)
  with assms(2) show False by simp
qed

lemma statusTail_fails:
  assumes "r \<noteq> []" "\<And>p' c'. (p', [], c') \<notin> set (ms statusRe (p, r, c))"
  shows "ms (Seq (Opt statusRe) Eol) (p, r, c) = []"
proof -
  have "ms Eol x = []" if "x \<in> set (ms statusRe (p, r, c))" for x
  proof -
    obtain a b d where x: "x = (a, b, d)" by (cases x)
    with that assms(2) have "b \<noteq> []" by (cases b) auto
    then show ?thesis using x by simp
  qed
  then have 1: "concat (map (ms Eol) (ms statusRe (p, r, c))) = []"
    by (simp del: ms.simps)
  have 2: "ms Eol (p, r, c) = []" using assms(1) by simp
  have "ms (Seq (Opt statusRe) Eol) (p, r, c) =
          concat (map (ms Eol) (ms statusRe (p, r, c))) @ ms Eol (p, r, c)"
    by (simp del: ms.simps add: Opt_def ms.simps(2,3,4))
  then show ?thesis by (simp only: 1 2 append_Nil)
qed

lemma statusTail_empty:
  "firstMatch (Seq (Opt statusRe) Eol) (p, [], c) = Some (p, [], c)"
  by (simp add: firstMatch_def Opt_def statusRe_def Plus_def)

text \<open>The shape of a status marker.\<close>

lemma statusMarker_shape:
  assumes "statusMarker w"
  obtains ws b where "w = ws @ js ''('' @ b @ js '')''" "ws \<noteq> []" "list_all isSpace ws"
    "b = js ''current'' \<or> b = js ''default''
     \<or> (\<exists>ws2. list_all isSpace ws2 \<and> b = js ''current,'' @ ws2 @ js ''default'')"
proof -
  define ws where "ws = takeWhile isSpace w"
  define t where "t = dropWhile isSpace w"
  have w: "w = ws @ t" by (simp add: ws_def t_def)
  from assms have ne: "t \<noteq> w"
    and t: "t = js ''(current)'' \<or> t = js ''(default)'' \<or>
       (startsWith t (js ''(current,'') \<and> dropWhile isSpace (drop 9 t) = js ''default)'')"
    by (simp_all add: statusMarker_def Let_def t_def)
  have ws: "ws \<noteq> []" using ne w by auto
  have sp: "list_all isSpace ws" by (auto simp: ws_def list_all_iff dest: set_takeWhileD)
  from t show ?thesis
  proof (elim disjE conjE)
    assume "t = js ''(current)''"
    then have "w = ws @ js ''('' @ js ''current'' @ js '')''" by (simp add: w js_def)
    then show ?thesis using ws sp by (rule that) simp
  next
    assume "t = js ''(default)''"
    then have "w = ws @ js ''('' @ js ''default'' @ js '')''" by (simp add: w js_def)
    then show ?thesis using ws sp by (rule that) simp
  next
    assume s: "startsWith t (js ''(current,'')"
      and d: "dropWhile isSpace (drop 9 t) = js ''default)''"
    define ws2 where "ws2 = takeWhile isSpace (drop 9 t)"
    have "length (js ''(current,'') = 9" by (simp add: js_def)
    with s have "take 9 t = js ''(current,''" by (simp add: startsWith_def)
    moreover have "drop 9 t = ws2 @ js ''default)''"
      using takeWhile_dropWhile_id [of isSpace "drop 9 t"] by (simp add: ws2_def d)
    ultimately have "t = js ''(current,'' @ ws2 @ js ''default)''"
      using append_take_drop_id [of 9 t] by simp
    then have "w = ws @ js ''('' @ (js ''current,'' @ ws2 @ js ''default'') @ js '')''"
      by (simp add: w js_def)
    moreover have "list_all isSpace ws2"
      by (auto simp: ws2_def list_all_iff dest: set_takeWhileD)
    ultimately show ?thesis using ws sp by (intro that [of ws "js ''current,'' @ ws2 @ js ''default''"]) auto
  qed
qed

lemma status_body_no_paren:
  assumes "b = js ''current'' \<or> b = js ''default''
     \<or> (\<exists>ws2. list_all isSpace ws2 \<and> b = js ''current,'' @ ws2 @ js ''default'')"
  shows "jc CHR ''('' \<notin> set b"
  using assms
proof (elim disjE exE conjE)
  assume "b = js ''current''"
  then show ?thesis by (simp add: js_def jc_eq_iff)
next
  assume "b = js ''default''"
  then show ?thesis by (simp add: js_def jc_eq_iff)
next
  fix ws2 assume sp2: "list_all isSpace ws2" and b: "b = js ''current,'' @ ws2 @ js ''default''"
  have "jc CHR ''('' \<notin> set ws2"
    using sp2 not_isSpace_ascii(1) by (auto simp: list_all_iff)
  then show ?thesis by (simp add: b js_def jc_eq_iff)
qed

text \<open>The three alternatives of \<open>statusRe\<close>, each followed by the closing parenthesis.\<close>

lemma status_body_match:
  assumes "b = js ''current'' \<or> b = js ''default''
     \<or> (\<exists>ws2. list_all isSpace ws2 \<and> b = js ''current,'' @ ws2 @ js ''default'')"
  shows "firstMatch
           (Seq (Alt (Lit (js ''current''))
                  (Alt (Lit (js ''default''))
                    (Seq (Lit (js ''current,'')) (Seq (Star (Chr isSpace)) (Lit (js ''default''))))))
                (Lit (js '')'')))
           (q, b @ js '')'', c) = Some (q @ b @ js '')'', [], c)"
  using assms
proof (elim disjE exE conjE)
  assume b: "b = js ''current''"
  show ?thesis unfolding b by (simp add: firstMatch_def js_def)
next
  assume b: "b = js ''default''"
  show ?thesis unfolding b by (simp add: firstMatch_def js_def jc_eq_iff)
next
  fix ws2 assume sp2: "list_all isSpace ws2" and b: "b = js ''current,'' @ ws2 @ js ''default''"
  let ?third = "Seq (Lit (js ''current,'')) (Seq (Star (Chr isSpace)) (Lit (js ''default'')))"
  let ?st = "(q, js ''current,'' @ ws2 @ js ''default'' @ js '')'', c)"
  have 1: "ms (Lit (js ''current'')) ?st
             = [(q @ js ''current'', jc CHR '','' # ws2 @ js ''default'' @ js '')'', c)]"
    by (simp add: ms_Lit js_def)
  have 2: "ms (Lit (js ''default'')) ?st = []"
    by (simp add: ms_Lit js_def jc_eq_iff)
  have a: "firstMatch (Lit (js ''current,'')) ?st
             = Some (q @ js ''current,'', ws2 @ js ''default'' @ js '')'', c)"
    by (rule firstMatch_Lit)
  have s: "firstMatch (Star (Chr isSpace)) (q @ js ''current,'', ws2 @ js ''default'' @ js '')'', c)
             = Some ((q @ js ''current,'') @ ws2, js ''default'' @ js '')'', c)"
    by (rule firstMatch_Star_Chr [OF sp2]) (simp add: js_def not_isSpace_ascii)
  have d: "firstMatch (Lit (js ''default'')) ((q @ js ''current,'') @ ws2, js ''default'' @ js '')'', c)
             = Some (((q @ js ''current,'') @ ws2) @ js ''default'', js '')'', c)"
    by (rule firstMatch_Lit)
  have "firstMatch ?third ?st = Some (((q @ js ''current,'') @ ws2) @ js ''default'', js '')'', c)"
    by (intro firstMatch_Seq [OF a] firstMatch_Seq [OF s] d)
  then obtain others where 3:
    "ms ?third ?st = (((q @ js ''current,'') @ ws2) @ js ''default'', js '')'', c) # others"
    by (auto simp: firstMatch_Some_iff)
  have alt: "ms (Alt (Lit (js ''current'')) (Alt (Lit (js ''default'')) ?third)) ?st
          = [(q @ js ''current'', jc CHR '','' # ws2 @ js ''default'' @ js '')'', c)]
            @ (((q @ js ''current,'') @ ws2) @ js ''default'', js '')'', c) # others"
    by (simp only: ms.simps(4) 1 2 3 append_Nil)
  have f: "\<forall>x\<in>set [(q @ js ''current'', jc CHR '','' # ws2 @ js ''default'' @ js '')'', c)].
             ms (Lit (js '')'')) x = []"
    by (simp add: ms_Lit js_def jc_eq_iff)
  have e: "firstMatch (Lit (js '')''))
             (((q @ js ''current,'') @ ws2) @ js ''default'', js '')'' @ [], c)
           = Some ((((q @ js ''current,'') @ ws2) @ js ''default'') @ js '')'', [], c)"
    by (rule firstMatch_Lit)
  from firstMatch_Seq_skip [OF alt f] e
  show ?thesis unfolding b by simp
qed

lemma statusTail_marker:
  assumes "statusMarker w"
  shows "firstMatch (Seq (Opt statusRe) Eol) (p, w, c) = Some (p @ w, [], c)"
proof -
  from assms obtain ws b where w: "w = ws @ js ''('' @ b @ js '')''"
    and ws: "ws \<noteq> []" "list_all isSpace ws"
    and b: "b = js ''current'' \<or> b = js ''default''
     \<or> (\<exists>ws2. list_all isSpace ws2 \<and> b = js ''current,'' @ ws2 @ js ''default'')"
    by (rule statusMarker_shape)
  have 1: "firstMatch (Plus (Chr isSpace)) (p, ws @ js ''('' @ b @ js '')'', c)
             = Some (p @ ws, js ''('' @ b @ js '')'', c)"
    by (rule firstMatch_Plus_Chr [OF ws]) (simp add: js_def not_isSpace_ascii)
  have 2: "firstMatch (Lit (js ''('')) (p @ ws, js ''('' @ b @ js '')'', c)
             = Some ((p @ ws) @ js ''('', b @ js '')'', c)"
    by (rule firstMatch_Lit)
  note 3 = status_body_match [OF b, of "(p @ ws) @ js ''(''" c]
  have 4: "firstMatch Eol (((p @ ws) @ js ''('') @ b @ js '')'', [], c)
             = Some (((p @ ws) @ js ''('') @ b @ js '')'', [], c)"
    by (simp add: firstMatch_def)
  have "firstMatch (Seq statusRe Eol) (p, ws @ js ''('' @ b @ js '')'', c)
          = Some (((p @ ws) @ js ''('') @ b @ js '')'', [], c)"
    unfolding statusRe_def
    by (intro firstMatch_Seq [OF _ 4] firstMatch_Seq [OF 1] firstMatch_Seq [OF 2] 3)
  then have "firstMatch (Seq (Opt statusRe) Eol) (p, ws @ js ''('' @ b @ js '')'', c)
          = Some (((p @ ws) @ js ''('') @ b @ js '')'', [], c)"
    by (rule firstMatch_Opt_Seq)
  then show ?thesis by (simp add: w)
qed

lemma statusMarker_last:
  assumes "statusMarker w"
  shows "w \<noteq> []" "\<not> isSpace (last w)"
proof -
  from assms obtain ws b where w: "w = ws @ js ''('' @ b @ js '')''"
    by (rule statusMarker_shape)
  show "w \<noteq> []" by (simp add: w js_def)
  have "last w = jc CHR '')''" by (simp add: w js_def)
  then show "\<not> isSpace (last w)" by (simp add: not_isSpace_ascii)
qed

lemma isIdChar_not_space: "isIdChar c \<Longrightarrow> \<not> isSpace c"
  by (auto simp: chr_defs Let_def)

lemma isAlnum_isIdChar: "isAlnum c \<Longrightarrow> isIdChar c"
  by (simp add: isIdChar_def)

lemma not_space_dash: "\<not> isSpace (jc CHR ''-'')"
  by (simp add: chr_defs)

lemma statusTail_suffix:
  "statusSuffix n marker \<Longrightarrow>
   firstMatch (Seq (Opt statusRe) Eol) (p, marker, c) = Some (p @ marker, [], c)"
  by (cases "marker = []") (simp_all add: statusSuffix_def statusTail_empty statusTail_marker del: ms.simps)

lemma name_then_tail:
  assumes "displayName n" "statusSuffix n marker"
  shows "firstMatch (Seq (Group 2 (LazyPlus (Chr isDot))) (Seq (Opt statusRe) Eol))
           (p, n @ marker, c) = Some (p @ n @ marker, [], c(2 \<mapsto> n))"
proof -
  let ?X = "n @ marker"
  let ?C = "Seq (Opt statusRe) Eol"
  let ?g = "\<lambda>k. (p @ take k ?X, drop k ?X, c(2 \<mapsto> take k ?X))"
  let ?m = "length n + length (takeWhile isDot marker)"
  from assms(1) have n: "n \<noteq> []" "list_all isDot n" "\<not> isSpace (last n)"
    by (simp_all add: displayName_def)
  have X: "?X \<noteq> []" "isDot (hd ?X)"
    using n by (cases n; simp)+
  have tw: "length (takeWhile isDot ?X) = ?m"
    using n(2) by (simp add: list_all_iff)
  have e1: "ms (Group 2 (LazyPlus (Chr isDot))) (p, ?X, c) = map ?g [1..<Suc ?m]"
    by (simp only: ms.simps(7) ms_LazyPlus_Chr_prefix [of "n @ marker" isDot, OF X] tw)
       (simp add: comp_def)
  have e2: "[1..<Suc ?m] = [1..<length n] @ length n # [Suc (length n)..<Suc ?m]"
  proof -
    have "1 \<le> length n" using n(1) by (cases n) simp_all
    from upt_add_eq_append [OF this, of "Suc (length (takeWhile isDot marker))"]
    have "[1..<Suc ?m] = [1..<length n] @ [length n..<Suc ?m]"
      by simp
    moreover have "[length n..<Suc ?m] = length n # [Suc (length n)..<Suc ?m]"
      by (rule upt_conv_Cons) simp
    ultimately show ?thesis by (simp only:)
  qed
  have list: "ms (Group 2 (LazyPlus (Chr isDot))) (p, ?X, c) =
      map ?g [1..<length n] @ ?g (length n) # map ?g [Suc (length n)..<Suc ?m]"
    by (simp only: e1 e2 map_append list.map)
  have fails: "\<forall>x\<in>set (map ?g [1..<length n]). ms ?C x = []"
  proof
    fix x assume "x \<in> set (map ?g [1..<length n])"
    then obtain k where k: "1 \<le> k" "k < length n" and x: "x = ?g k" by auto
    have d: "drop k ?X = drop k n @ marker" and u: "drop k n \<noteq> []" using k by simp_all
    have l: "\<not> isSpace (last (drop k n))" using k n(3) by simp
    have "(p', [], c') \<notin> set (ms statusRe (p @ take k ?X, drop k n @ marker, c(2 \<mapsto> take k ?X)))"
      for p' c'
    proof (cases "marker = []")
      case True
      with assms(2) have "list_all (\<lambda>k. \<not> statusMarker (drop k n)) [1..<length n]"
        by (simp add: statusSuffix_def)
      then have "\<not> statusMarker (drop k n)" using k by (simp add: list_all_iff)
      then show ?thesis using statusRe_statusMarker True by auto
    next
      case False
      with assms(2) have "statusMarker marker" by (simp add: statusSuffix_def)
      then obtain ws b where m: "marker = ws @ js ''('' @ b @ js '')''"
        and b: "b = js ''current'' \<or> b = js ''default''
           \<or> (\<exists>ws2. list_all isSpace ws2 \<and> b = js ''current,'' @ ws2 @ js ''default'')"
        by (rule statusMarker_shape)
      show ?thesis
        unfolding m by (rule no_marker_after_text [OF u l status_body_no_paren [OF b]])
    qed
    then have "ms ?C (p @ take k ?X, drop k n @ marker, c(2 \<mapsto> take k ?X)) = []"
      using u by (intro statusTail_fails) simp_all
    then show "ms ?C x = []" by (simp only: x d)
  qed
  have "?g (length n) = (p @ n, marker, c(2 \<mapsto> n))" by simp
  then have ok: "firstMatch ?C (?g (length n)) = Some ((p @ n) @ marker, [], c(2 \<mapsto> n))"
    by (simp only: statusTail_suffix [OF assms(2)])
  from firstMatch_Seq_skip [OF list fails ok] show ?thesis by simp
qed

lemma lineRe_match:
  assumes "modelIdent i" "whiteSpace sp1" "whiteSpace sp2" "displayName n"
    and "statusSuffix n marker"
  shows "exec lineRe (i @ sp1 @ js ''-'' @ sp2 @ n @ marker) =
           Some ([], (i @ sp1 @ js ''-'' @ sp2 @ n @ marker, [], [1 \<mapsto> i, 2 \<mapsto> n]))"
proof -
  let ?X = "n @ marker"
  let ?L = "i @ sp1 @ js ''-'' @ sp2 @ ?X"
  let ?c1 = "[1 \<mapsto> i] :: nat \<rightharpoonup> jsstring"
  from assms(1) obtain x xs where i: "i = x # xs" and x: "isAlnum x" and xs: "list_all isIdChar xs"
    by (cases i) (simp_all add: modelIdent_def)
  from assms(2) have sp1: "sp1 \<noteq> []" "list_all isSpace sp1" by (simp_all add: whiteSpace_def)
  from assms(3) have sp2: "sp2 \<noteq> []" "list_all isSpace sp2" by (simp_all add: whiteSpace_def)
  from assms(4) have n: "n \<noteq> []" "\<not> isSpace (hd n)" by (simp_all add: displayName_def)
  have h1: "\<not> isIdChar (hd sp1)"
    using sp1 isIdChar_not_space [of "hd sp1"] by (cases sp1) auto
  have L: "?L = x # xs @ sp1 @ js ''-'' @ sp2 @ ?X" by (simp add: i)
  have b: "firstMatch Bol ([], ?L, Map.empty) = Some ([], ?L, Map.empty)"
    by (simp add: firstMatch_def)
  have "firstMatch (Chr isAlnum) ([], x # xs @ sp1 @ js ''-'' @ sp2 @ ?X, Map.empty)
          = Some ([] @ [x], xs @ sp1 @ js ''-'' @ sp2 @ ?X, Map.empty)"
    by (rule firstMatch_Chr) (rule x)
  moreover have "firstMatch (Star (Chr isIdChar)) ([] @ [x], xs @ sp1 @ js ''-'' @ sp2 @ ?X, Map.empty)
          = Some (([] @ [x]) @ xs, sp1 @ js ''-'' @ sp2 @ ?X, Map.empty)"
    by (rule firstMatch_Star_Chr [OF xs]) (use sp1 h1 in simp)
  ultimately have "firstMatch (Seq (Chr isAlnum) (Star (Chr isIdChar))) ([], ?L, Map.empty)
          = Some (i, sp1 @ js ''-'' @ sp2 @ ?X, Map.empty)"
    unfolding L by (simp only: firstMatch_Seq append_Nil append_Cons i)
  from firstMatch_Group [OF this, of 1]
  have g1: "firstMatch (Group 1 (Seq (Chr isAlnum) (Star (Chr isIdChar)))) ([], ?L, Map.empty)
          = Some (i, sp1 @ js ''-'' @ sp2 @ ?X, ?c1)"
    by simp
  have w1: "firstMatch (Plus (Chr isSpace)) (i, sp1 @ js ''-'' @ sp2 @ ?X, ?c1)
          = Some (i @ sp1, js ''-'' @ sp2 @ ?X, ?c1)"
    by (rule firstMatch_Plus_Chr [OF sp1]) (simp add: not_space_dash js_def)
  have d: "firstMatch (Lit (js ''-'')) (i @ sp1, js ''-'' @ sp2 @ ?X, ?c1)
          = Some ((i @ sp1) @ js ''-'', sp2 @ ?X, ?c1)"
    by (rule firstMatch_Lit)
  have w2: "firstMatch (Plus (Chr isSpace)) ((i @ sp1) @ js ''-'', sp2 @ ?X, ?c1)
          = Some (((i @ sp1) @ js ''-'') @ sp2, ?X, ?c1)"
    by (rule firstMatch_Plus_Chr [OF sp2]) (use n in simp)
  have t: "firstMatch (Seq (Group 2 (LazyPlus (Chr isDot))) (Seq (Opt statusRe) Eol))
            (((i @ sp1) @ js ''-'') @ sp2, ?X, ?c1)
          = Some ((((i @ sp1) @ js ''-'') @ sp2) @ n @ marker, [], ?c1(2 \<mapsto> n))"
    by (rule name_then_tail [OF assms(4,5)])
  have "firstMatch lineRe ([], ?L, Map.empty)
          = Some ((((i @ sp1) @ js ''-'') @ sp2) @ n @ marker, [], ?c1(2 \<mapsto> n))"
    unfolding lineRe_def
    by (intro firstMatch_Seq [OF b] firstMatch_Seq [OF g1] firstMatch_Seq [OF w1]
          firstMatch_Seq [OF d] firstMatch_Seq [OF w2] t)
  moreover have "(((i @ sp1) @ js ''-'') @ sp2) @ n @ marker = ?L" by simp
  ultimately have "firstMatch lineRe ([], ?L, Map.empty) = Some (?L, [], ?c1(2 \<mapsto> n))"
    by (simp only:)
  then show ?thesis by (rule exec_firstMatch)
qed

lemma startsWith_before_space:
  assumes "startsWith (i @ x # R) A" "x \<notin> set A"
  shows "startsWith i A"
proof (cases "length A \<le> length i")
  case True
  then show ?thesis using assms(1) by (simp add: startsWith_def)
next
  case False
  then have "take (length A) (i @ x # R) = i @ x # take (length A - Suc (length i)) R"
    by (simp add: take_Cons' not_le)
  with assms(1) have "A = i @ x # take (length A - Suc (length i)) R"
    by (simp only: startsWith_def)
  then have "x \<in> set A" by (metis in_set_conv_decomp)
  with assms(2) show ?thesis by simp
qed

lemma modelIdent_chars:
  assumes "modelIdent i"
  shows "i \<noteq> []" "list_all isIdChar i" "\<not> isSpace (hd i)" "\<not> isSpace (last i)"
proof -
  from assms obtain x xs where i: "i = x # xs" and x: "isAlnum x" and xs: "list_all isIdChar xs"
    by (cases i) (simp_all add: modelIdent_def)
  show "i \<noteq> []" by (simp add: i)
  show all: "list_all isIdChar i" using x xs by (simp add: i isAlnum_isIdChar)
  show "\<not> isSpace (hd i)" using x by (simp add: i isAlnum_isIdChar isIdChar_not_space)
  have "last i \<in> set i" by (rule last_in_set) (simp add: i)
  then have "isIdChar (last i)" using all by (simp add: list_all_iff)
  then show "\<not> isSpace (last i)" by (rule isIdChar_not_space)
qed

lemma modelIdent_not_Tip:
  assumes "modelIdent i"
  shows "\<not> startsWith i (js ''Tip:'')"
proof
  assume "startsWith i (js ''Tip:'')"
  then have e: "take (length (js ''Tip:'')) i = js ''Tip:''" by (simp only: startsWith_def)
  have "jc CHR '':'' \<in> set (js ''Tip:'')" by (simp add: js_def)
  then have "jc CHR '':'' \<in> set (take (length (js ''Tip:'')) i)" by (simp only: e)
  then have "jc CHR '':'' \<in> set i" by (rule in_set_takeD)
  then have "isIdChar (jc CHR '':'')" using modelIdent_chars(2) [OF assms] by (simp add: list_all_iff)
  then show False by (simp add: chr_defs)
qed

lemma header_words_no_space:
  "isSpace x \<Longrightarrow> x \<notin> set (js ''Available'')" "isSpace x \<Longrightarrow> x \<notin> set (js ''Tip:'')"
  by (auto simp: chr_defs)

text \<open>
  A model line of the discovery output: the identifier, \<open>-\<close> between white space, the
  display name and a status marker, or none.
\<close>

lemma parseModelLine_model:
  assumes "trim line = i @ sp1 @ js ''-'' @ sp2 @ n @ marker"
    and "modelIdent i" "\<not> startsWith i (js ''Available'')"
    and "whiteSpace sp1" "whiteSpace sp2"
    and "displayName n" "statusSuffix n marker"
  shows "parseModelLine line =
           Some \<lparr>id' = i, name = n,
             reasoning = (case STATIC_MODELS_MAP i of Some k \<Rightarrow> reasoning k | None \<Rightarrow> inferReasoning i),
             contextWindow = (case STATIC_MODELS_MAP i of Some k \<Rightarrow> contextWindow k | None \<Rightarrow> 200000),
             maxTokens = (case STATIC_MODELS_MAP i of Some k \<Rightarrow> maxTokens k | None \<Rightarrow> 32768)\<rparr>"
proof -
  let ?L = "i @ sp1 @ js ''-'' @ sp2 @ n @ marker"
  note ic = modelIdent_chars [OF assms(2)]
  from assms(6) have n: "n \<noteq> []" "\<not> isSpace (hd n)" "\<not> isSpace (last n)"
    by (simp_all add: displayName_def)
  from assms(4) obtain x R where sp1: "sp1 = x # R" and x: "isSpace x"
    by (cases sp1) (simp_all add: whiteSpace_def)
  have L: "?L = i @ x # (R @ js ''-'' @ sp2 @ n @ marker)" by (simp add: sp1)
  have ne: "?L \<noteq> []" using ic(1) by simp
  have a: "\<not> startsWith ?L (js ''Available'')"
  proof
    assume "startsWith ?L (js ''Available'')"
    then have "startsWith (i @ x # (R @ js ''-'' @ sp2 @ n @ marker)) (js ''Available'')"
      by (simp only: L)
    then have "startsWith i (js ''Available'')"
      by (rule startsWith_before_space) (rule header_words_no_space(1) [OF x])
    with assms(3) show False by simp
  qed
  have t: "\<not> startsWith ?L (js ''Tip:'')"
  proof
    assume "startsWith ?L (js ''Tip:'')"
    then have "startsWith (i @ x # (R @ js ''-'' @ sp2 @ n @ marker)) (js ''Tip:'')"
      by (simp only: L)
    then have "startsWith i (js ''Tip:'')"
      by (rule startsWith_before_space) (rule header_words_no_space(2) [OF x])
    with modelIdent_not_Tip [OF assms(2)] show False by simp
  qed
  have ti: "trim i = i" using ic by (intro trim_id) simp
  have tn: "trim n = n" using n by (intro trim_id) simp
  show ?thesis
    unfolding parseModelLine_def Let_def assms(1) lineRe_match [OF assms(2,4,5,6,7)]
    using ne a t by (simp add: group_def ti tn split: option.splits)
qed

lemma parseModelLine_skipped:
  "trim l = [] \<or> startsWith (trim l) (js ''Available'') \<or> startsWith (trim l) (js ''Tip:'')
   \<Longrightarrow> parseModelLine l = None"
  by (auto simp: parseModelLine_def Let_def)

lemma split_line:
  "sep \<notin> set l \<Longrightarrow> split sep (l @ sep # rest) = l # split sep rest"
  by (induction l) auto

lemma split_last_line:
  "sep \<notin> set l \<Longrightarrow> split sep l = [l]"
  by (induction l) auto

lemma parseAgentModelsOutput_line:
  "0x0A \<notin> set l \<Longrightarrow>
   parseAgentModelsOutput (l @ 0x0A # rest) =
     (case parseModelLine l of None \<Rightarrow> [] | Some d \<Rightarrow> [d]) @ parseAgentModelsOutput rest"
  by (simp add: parseAgentModelsOutput_def split_line split: option.splits)

lemma parseAgentModelsOutput_last_line:
  "0x0A \<notin> set l \<Longrightarrow>
   parseAgentModelsOutput l = (case parseModelLine l of None \<Rightarrow> [] | Some d \<Rightarrow> [d])"
  by (simp add: parseAgentModelsOutput_def split_last_line split: option.splits)

lemma sonnet_known:
  "STATIC_MODELS_MAP (js ''sonnet-4.6'') =
     Some \<lparr>id' = js ''sonnet-4.6'', name = js ''Claude 4.6 Sonnet'', reasoning = False,
           contextWindow = 200000, maxTokens = 32000\<rparr>"
  by (simp add: STATIC_MODELS_MAP_def STATIC_MODELS_def js_eq_iff)

lemma modelIdent_examples:
  "modelIdent (js ''sonnet-4.6'')" "modelIdent (js ''gpt-9-max'')" "modelIdent (js ''Available-x'')"
  by (simp_all add: modelIdent_def chr_defs)

lemma displayName_examples:
  "displayName (js ''Claude 4.6 Sonnet'')" "displayName (js ''GPT 9 Max'')" "displayName (js ''Foo'')"
  by (simp_all add: displayName_def chr_defs)

lemma statusSuffix_examples:
  "statusSuffix (js ''Claude 4.6 Sonnet'') (js ''  (current)'')"
  "statusSuffix (js ''GPT 9 Max'') []" "statusSuffix (js ''Foo'') []"
  by (simp_all add: statusSuffix_def statusMarker_def startsWith_def chr_defs Let_def)

lemma whiteSpace_examples: "whiteSpace (js '' '')" "whiteSpace (js ''  '')"
  by (simp_all add: whiteSpace_def chr_defs)

lemma trim_examples:
  "trim (js ''sonnet-4.6 - Claude 4.6 Sonnet  (current)'') =
     js ''sonnet-4.6'' @ js '' '' @ js ''-'' @ js '' '' @ js ''Claude 4.6 Sonnet'' @ js ''  (current)''"
  "trim (js ''  gpt-9-max  -  GPT 9 Max  '') =
     js ''gpt-9-max'' @ js ''  '' @ js ''-'' @ js ''  '' @ js ''GPT 9 Max'' @ []"
  "trim (js ''Available-x - Foo'') = js ''Available-x'' @ js '' '' @ js ''-'' @ js '' '' @ js ''Foo'' @ []"
  "trim (js ''Available models'') = js ''Available models''"
  by (simp_all add: trim_def chr_defs)

text \<open>
  C8, as amended. The parser trims each line and skips it when it is then empty or
  begins with \<open>Available\<close> or \<open>Tip:\<close>. A trimmed line made of an identifier that does
  not begin with \<open>Available\<close>, white space, \<open>-\<close>, white space, a display name, and then
  nothing or the status marker that ends the line (white space and \<open>(current)\<close>,
  \<open>(default)\<close> or \<open>(current, default)\<close>, with any white space after the comma) is
  parsed to one model definition with that identifier and that name, the marker left
  out. The definition has the attributes of the static table when the table has the
  identifier; otherwise its reasoning flag is inferred from the identifier, its context
  window is 200000 and its token limit 32768. The output is parsed line by line, in
  order: the definition of a line, if it has one, comes before those of the lines after
  it. The output of Scenario D gives exactly two definitions, with the identifiers
  \<open>auto\<close> and \<open>sonnet-4.6\<close>.
\<close>

theorem model_lines_parsed:
  assumes "trim line = i @ sp1 @ js ''-'' @ sp2 @ n @ marker"
    and "modelIdent i" and "\<not> startsWith i (js ''Available'')"
    and "whiteSpace sp1" and "whiteSpace sp2"
    and "displayName n" and "statusSuffix n marker"
  shows "parseModelLine line =
           Some \<lparr>id' = i, name = n,
             reasoning = (case STATIC_MODELS_MAP i of Some k \<Rightarrow> reasoning k | None \<Rightarrow> inferReasoning i),
             contextWindow = (case STATIC_MODELS_MAP i of Some k \<Rightarrow> contextWindow k | None \<Rightarrow> 200000),
             maxTokens = (case STATIC_MODELS_MAP i of Some k \<Rightarrow> maxTokens k | None \<Rightarrow> 32768)\<rparr>
       \<and> (trim other = [] \<or> startsWith (trim other) (js ''Available'')
            \<or> startsWith (trim other) (js ''Tip:'')
          \<longrightarrow> parseModelLine other = None)
       \<and> (0x0A \<notin> set l \<longrightarrow>
            parseAgentModelsOutput (l @ 0x0A # rest) =
              (case parseModelLine l of None \<Rightarrow> [] | Some d \<Rightarrow> [d]) @ parseAgentModelsOutput rest
            \<and> parseAgentModelsOutput l = (case parseModelLine l of None \<Rightarrow> [] | Some d \<Rightarrow> [d]))
       \<and> parseAgentModelsOutput scenarioD_output =
           [\<lparr>id' = js ''auto'', name = js ''Auto'', reasoning = False,
             contextWindow = 200000, maxTokens = 32768\<rparr>,
            \<lparr>id' = js ''sonnet-4.6'', name = js ''Claude 4.6 Sonnet'', reasoning = False,
             contextWindow = 200000, maxTokens = 32000\<rparr>]"
proof -
  note p = parseModelLine_model [OF assms]
  have s: "trim other = [] \<or> startsWith (trim other) (js ''Available'')
            \<or> startsWith (trim other) (js ''Tip:'')
          \<longrightarrow> parseModelLine other = None"
    using parseModelLine_skipped [of other] by blast
  have o: "0x0A \<notin> set l \<longrightarrow>
            parseAgentModelsOutput (l @ 0x0A # rest) =
              (case parseModelLine l of None \<Rightarrow> [] | Some d \<Rightarrow> [d]) @ parseAgentModelsOutput rest
            \<and> parseAgentModelsOutput l = (case parseModelLine l of None \<Rightarrow> [] | Some d \<Rightarrow> [d])"
    using parseAgentModelsOutput_line [of l rest] parseAgentModelsOutput_last_line [of l] by blast
  note d = scenarioD_parsed
  from p s o d show ?thesis by (intro conjI)
qed

theorem model_lines_parsed_witness:
  "trim (js ''sonnet-4.6 - Claude 4.6 Sonnet  (current)'') =
     js ''sonnet-4.6'' @ js '' '' @ js ''-'' @ js '' '' @ js ''Claude 4.6 Sonnet'' @ js ''  (current)''
   \<and> modelIdent (js ''sonnet-4.6'') \<and> \<not> startsWith (js ''sonnet-4.6'') (js ''Available'')
   \<and> whiteSpace (js '' '')
   \<and> displayName (js ''Claude 4.6 Sonnet'')
   \<and> statusSuffix (js ''Claude 4.6 Sonnet'') (js ''  (current)'')
   \<and> parseModelLine (js ''sonnet-4.6 - Claude 4.6 Sonnet  (current)'') =
        Some \<lparr>id' = js ''sonnet-4.6'', name = js ''Claude 4.6 Sonnet'', reasoning = False,
              contextWindow = 200000, maxTokens = 32000\<rparr>
   \<and> startsWith (trim (js ''Available models'')) (js ''Available'')
   \<and> parseModelLine (js ''Available models'') = None
   \<and> trim (js ''  gpt-9-max  -  GPT 9 Max  '') =
       js ''gpt-9-max'' @ js ''  '' @ js ''-'' @ js ''  '' @ js ''GPT 9 Max'' @ []
   \<and> modelIdent (js ''gpt-9-max'') \<and> \<not> startsWith (js ''gpt-9-max'') (js ''Available'')
   \<and> whiteSpace (js ''  '') \<and> displayName (js ''GPT 9 Max'')
   \<and> statusSuffix (js ''GPT 9 Max'') []
   \<and> 0x0A \<notin> set (js ''  gpt-9-max  -  GPT 9 Max  '')
   \<and> parseAgentModelsOutput (js ''  gpt-9-max  -  GPT 9 Max  '' @ 0x0A # js ''Available models'') =
        [\<lparr>id' = js ''gpt-9-max'', name = js ''GPT 9 Max'', reasoning = False,
          contextWindow = 200000, maxTokens = 32768\<rparr>]"
proof -
  have h: "\<not> startsWith (js ''sonnet-4.6'') (js ''Available'')"
    "\<not> startsWith (js ''gpt-9-max'') (js ''Available'')"
    "startsWith (trim (js ''Available models'')) (js ''Available'')"
    "startsWith (js ''Available models'') (js ''Available'')"
    by (simp_all add: trim_examples(4)) (simp_all add: startsWith_def js_def jc_eq_iff)
  have nl: "0x0A \<notin> set (js ''  gpt-9-max  -  GPT 9 Max  '')"
    "0x0A \<notin> set (js ''Available models'')"
    by (simp_all add: js_def jc_def)
  have r: "\<not> inferReasoning (js ''gpt-9-max'')"
    by (simp add: inferReasoning_iff endsWith_def js_def jc_eq_iff)
  note a = model_lines_parsed [OF trim_examples(1) modelIdent_examples(1) h(1)
      whiteSpace_examples(1) whiteSpace_examples(1) displayName_examples(1)
      statusSuffix_examples(1),
      of "js ''Available models''" "js ''Available models''" "[]"]
  note b = model_lines_parsed [OF trim_examples(2) modelIdent_examples(2) h(2)
      whiteSpace_examples(2) whiteSpace_examples(2) displayName_examples(2)
      statusSuffix_examples(2),
      of "js ''Available models''" "js ''  gpt-9-max  -  GPT 9 Max  ''" "js ''Available models''"]
  have 1: "parseModelLine (js ''sonnet-4.6 - Claude 4.6 Sonnet  (current)'') =
        Some \<lparr>id' = js ''sonnet-4.6'', name = js ''Claude 4.6 Sonnet'', reasoning = False,
              contextWindow = 200000, maxTokens = 32000\<rparr>"
    and 2: "parseModelLine (js ''Available models'') = None"
    and 3: "parseAgentModelsOutput (js ''Available models'') = []"
    using a h(3) nl(2) by (simp_all add: sonnet_known)
  have 4: "parseModelLine (js ''  gpt-9-max  -  GPT 9 Max  '') =
        Some \<lparr>id' = js ''gpt-9-max'', name = js ''GPT 9 Max'', reasoning = False,
              contextWindow = 200000, maxTokens = 32768\<rparr>"
    using b by (simp add: gpt_9_max_unknown r)
  have 5: "parseAgentModelsOutput (js ''  gpt-9-max  -  GPT 9 Max  '' @ 0x0A # js ''Available models'') =
        [\<lparr>id' = js ''gpt-9-max'', name = js ''GPT 9 Max'', reasoning = False,
          contextWindow = 200000, maxTokens = 32768\<rparr>]"
    using b nl(1) by (simp add: 3 4)
  show ?thesis
    by (simp only: trim_examples modelIdent_examples displayName_examples whiteSpace_examples
          statusSuffix_examples h nl 1 2 5 simp_thms)
qed

text \<open>
  The claim as it stands says this of each line of the form: a line whose identifier
  begins with \<open>Available\<close> has the form, the pattern accepts it with the two groups,
  and the parser skips it.
\<close>

theorem available_line_counterexample:
  "modelIdent (js ''Available-x'') \<and> displayName (js ''Foo'')
   \<and> exec lineRe (js ''Available-x - Foo'') =
        Some ([], (js ''Available-x - Foo'', [], [1 \<mapsto> js ''Available-x'', 2 \<mapsto> js ''Foo'']))
   \<and> parseModelLine (js ''Available-x - Foo'') = None
   \<and> parseAgentModelsOutput (js ''Available-x - Foo\<newline>'') = []"
proof -
  from lineRe_match [OF modelIdent_examples(3) whiteSpace_examples(1) whiteSpace_examples(1)
      displayName_examples(3) statusSuffix_examples(3)]
  have x: "exec lineRe (js ''Available-x - Foo'') =
        Some ([], (js ''Available-x - Foo'', [], [1 \<mapsto> js ''Available-x'', 2 \<mapsto> js ''Foo'']))"
    by (simp add: js_def)
  have "startsWith (trim (js ''Available-x - Foo'')) (js ''Available'')"
    by (simp add: trim_examples(3)) (simp add: startsWith_def js_def)
  then have p: "parseModelLine (js ''Available-x - Foo'') = None"
    by (intro parseModelLine_skipped) simp
  have "0x0A \<notin> set (js ''Available-x - Foo'')" by (simp add: js_def jc_def)
  from parseAgentModelsOutput_line [OF this, of "[]"]
  have "parseAgentModelsOutput (js ''Available-x - Foo'' @ [0x0A]) = []"
    by (simp add: p parse_no_output)
  moreover have "js ''Available-x - Foo\<newline>'' = js ''Available-x - Foo'' @ [0x0A]"
    by (simp add: js_def jc_def)
  ultimately have o: "parseAgentModelsOutput (js ''Available-x - Foo\<newline>'') = []"
    by (simp only:)
  show ?thesis by (simp only: modelIdent_examples displayName_examples x p o simp_thms)
qed

end
